theory Spec2Isabelle
  imports Complex_Main
begin

section \<open>State reconciliation: \<open>updateCurrentConversation\<close>\<close>

text \<open>
  The embedding follows \<^verbatim>\<open>src/static/ascii_animator.js\<close>. JavaScript strings are modelled
  as \<open>string\<close>, one list element per code unit, so \<open>length\<close> is the \<^verbatim>\<open>.length\<close> of the
  source. The three agent labels of the message header contain symbols outside ASCII and
  are kept as constructors of a datatype.
\<close>

subsection \<open>Snapshot data\<close>

text \<open>
  A message of a snapshot. \<open>content\<close> is optional: the source reads it as
  \<^verbatim>\<open>msg.content || ''\<close>. The timestamp is a number of milliseconds.
\<close>

record message =
  agent :: string
  timestamp :: int
  content :: "string option"

text \<open>
  The conversation object passed to \<^verbatim>\<open>updateCurrentConversation\<close>; the id and the
  message array may be missing, and the whole object may be \<^verbatim>\<open>null\<close> (\<open>None\<close>).
\<close>

record conversation =
  conv_id :: "string option"
  messages :: "message list option"

subsection \<open>Number to string, lower case\<close>

text \<open>
  The decimal text that a template literal produces for an integer number
  (exact for integers below \<open>10\<^sup>2\<^sup>1\<close> in absolute value, which covers millisecond timestamps).
\<close>

function digits :: "nat \<Rightarrow> string" where
  "digits n =
     (if n < 10 then [''0123456789'' ! n]
      else digits (n div 10) @ [''0123456789'' ! (n mod 10)])"
  by pat_completeness auto
termination
  by (relation "measure id") auto

declare digits.simps [simp del]

definition number_string :: "int \<Rightarrow> string" where
  "number_string i = (if i < 0 then ''-'' @ digits (nat (- i)) else digits (nat i))"

text \<open>\<^verbatim>\<open>toLowerCase\<close> on the ASCII letters.\<close>

definition toLowerCase_char :: "char \<Rightarrow> char" where
  "toLowerCase_char c =
     (case map_of (zip ''ABCDEFGHIJKLMNOPQRSTUVWXYZ'' ''abcdefghijklmnopqrstuvwxyz'') c of
        Some l \<Rightarrow> l
      | None \<Rightarrow> c)"

definition toLowerCase :: "string \<Rightarrow> string" where
  "toLowerCase s = map toLowerCase_char s"

subsection \<open>The composite key\<close>

text \<open>\<^verbatim>\<open>const msgId = `${msg.agent}-${msg.timestamp}`;\<close> (lines 550 and 592).\<close>

definition msgId :: "message \<Rightarrow> string" where
  "msgId msg = agent msg @ ''-'' @ number_string (timestamp msg)"

subsection \<open>Render nodes\<close>

text \<open>
  The text of the \<^verbatim>\<open>.msg-agent\<close> span:
  \<^verbatim>\<open>msg.agent === 'OBSERVER' ? ... : (msg.agent === 'SYSTEM' ? ... : ...)\<close>.
\<close>

datatype agent_label = ObserverLabel | SystemLabel | EgoLabel

definition displayAgent :: "string \<Rightarrow> agent_label" where
  "displayAgent a =
     (if a = ''OBSERVER'' then ObserverLabel
      else if a = ''SYSTEM'' then SystemLabel
      else EgoLabel)"

text \<open>
  A message \<^verbatim>\<open>div\<close>: its id, its class name, the header (agent label, and the timestamp
  whose \<^verbatim>\<open>toLocaleTimeString()\<close> the \<^verbatim>\<open>.msg-time\<close> span shows) and the text of
  \<^verbatim>\<open>.msg-content\<close>.
\<close>

record node =
  node_id :: string
  class_name :: string
  msg_agent :: agent_label
  msg_time :: int
  msg_content :: string

text \<open>
  The children of the \<^verbatim>\<open>#current-conversation\<close> element: the "awaiting dialogue"
  placeholder (a \<^verbatim>\<open>div.loading-ascii\<close> without id) or a message \<^verbatim>\<open>div\<close>.
\<close>

datatype elem = LoadingAscii | MsgDiv node

text \<open>\<^verbatim>\<open>msg.content || ''\<close>.\<close>

definition msg_text :: "message \<Rightarrow> string" where
  "msg_text msg = (case content msg of Some t \<Rightarrow> t | None \<Rightarrow> '''')"

definition new_node :: "message \<Rightarrow> node" where
  "new_node msg =
     \<lparr> node_id = msgId msg,
       class_name = ''message '' @ toLowerCase (agent msg)
                      @ (if agent msg = ''SYSTEM'' then '' system'' else ''''),
       msg_agent = displayAgent (agent msg),
       msg_time = timestamp msg,
       msg_content = msg_text msg \<rparr>"

text \<open>
  \<^verbatim>\<open>document.getElementById(msgId)\<close>, restricted to the conversation container: the
  first message \<^verbatim>\<open>div\<close> with that id, or \<open>None\<close> for \<^verbatim>\<open>null\<close>. No element of the page
  outside the container is taken to carry the key of a message as its id.
\<close>

fun getElementById :: "string \<Rightarrow> elem list \<Rightarrow> node option" where
  "getElementById k [] = None"
| "getElementById k (LoadingAscii # es) = getElementById k es"
| "getElementById k (MsgDiv n # es) =
     (if node_id n = k then Some n else getElementById k es)"

text \<open>\<^verbatim>\<open>cont.textContent = newText\<close> on the element that \<open>getElementById\<close> finds.\<close>

fun set_content :: "string \<Rightarrow> string \<Rightarrow> elem list \<Rightarrow> elem list" where
  "set_content k t [] = []"
| "set_content k t (LoadingAscii # es) = LoadingAscii # set_content k t es"
| "set_content k t (MsgDiv n # es) =
     (if node_id n = k then MsgDiv (n\<lparr>msg_content := t\<rparr>) # es
      else MsgDiv n # set_content k t es)"

text \<open>\<^verbatim>\<open>if (elem) elem.remove()\<close> for the element that \<open>getElementById\<close> finds.\<close>

fun remove_elem :: "string \<Rightarrow> elem list \<Rightarrow> elem list" where
  "remove_elem k [] = []"
| "remove_elem k (LoadingAscii # es) = LoadingAscii # remove_elem k es"
| "remove_elem k (MsgDiv n # es) =
     (if node_id n = k then es else MsgDiv n # remove_elem k es)"

subsection \<open>The reconciler's state\<close>

text \<open>
  \<open>currentMessages\<close> is the \<^verbatim>\<open>Map\<close> of rendered messages in insertion order;
  \<open>children\<close> the content of the conversation container; \<open>processedMessageIds\<close> and
  \<open>currentConversationId\<close> the two \<^verbatim>\<open>window\<close> fields; \<open>stored_conversation\<close> and
  \<open>stored_processed\<close> the values under the local-storage keys
  \<^verbatim>\<open>grokgates-current-conversation\<close> and \<^verbatim>\<open>grokgates-processed-messages\<close> (the latter
  as the array that the stored JSON text denotes, \<open>Some []\<close> for the text \<^verbatim>\<open>[]\<close>, \<open>None\<close>
  when the key is not set); \<open>autoScroll\<close> the flag kept by the scroll listener. The variables
  \<^verbatim>\<open>messageQueue\<close> and \<^verbatim>\<open>isTyping\<close>, which the source marks as unused, are left out.
\<close>

record state =
  currentMessages :: "(string \<times> message) list"
  children :: "elem list"
  processedMessageIds :: "string set"
  currentConversationId :: "string option"
  stored_conversation :: "string option"
  stored_processed :: "string list option"
  autoScroll :: bool

text \<open>The writes to the page that one call performs, in order.\<close>

datatype dom_op =
    SetPlaceholder
  | ClearChildren
  | AppendChild string
  | SetContent string string
  | ScrollToBottom
  | RemoveElem string

text \<open>
  Reading a property of \<^verbatim>\<open>null\<close> (the \<^verbatim>\<open>existing.querySelector\<close> of line 580 when no
  element has the id) throws.
\<close>

datatype error = TypeError

definition scroll_ops :: "state \<Rightarrow> dom_op list" where
  "scroll_ops s = (if autoScroll s then [ScrollToBottom] else [])"

text \<open>The body of the \<^verbatim>\<open>msgs.forEach\<close> callback, lines 550 to 588.\<close>

definition render_msg :: "state \<Rightarrow> message \<Rightarrow> error + (dom_op list \<times> state)" where
  "render_msg s msg =
     (let k = msgId msg in
      if k \<notin> fst ` set (currentMessages s) then
        Inr (AppendChild k # scroll_ops s,
             s\<lparr> currentMessages := currentMessages s @ [(k, msg)],
                children := children s @ [MsgDiv (new_node msg)] \<rparr>)
      else
        (case getElementById k (children s) of
           None \<Rightarrow> Inl TypeError
         | Some existing \<Rightarrow>
             let newText = msg_text msg;
                 oldText = msg_content existing
             in if length newText \<ge> length oldText \<and> newText \<noteq> oldText then
                  Inr (SetContent k newText # scroll_ops s,
                       s\<lparr> children := set_content k newText (children s) \<rparr>)
                else Inr ([], s)))"

fun render_all :: "state \<Rightarrow> message list \<Rightarrow> error + (dom_op list \<times> state)" where
  "render_all s [] = Inr ([], s)"
| "render_all s (msg # msgs) =
     (case render_msg s msg of
        Inl e \<Rightarrow> Inl e
      | Inr (ops, s') \<Rightarrow>
          (case render_all s' msgs of
             Inl e \<Rightarrow> Inl e
           | Inr (ops', s'') \<Rightarrow> Inr (ops @ ops', s'')))"

text \<open>The body of the \<^verbatim>\<open>toRemove.forEach\<close> callback, lines 599 to 604.\<close>

definition remove_msg :: "string \<Rightarrow> dom_op list \<times> state \<Rightarrow> dom_op list \<times> state" where
  "remove_msg k acc =
     (let ops = fst acc; s = snd acc in
      (ops @ (case getElementById k (children s) of
                None \<Rightarrow> []
              | Some _ \<Rightarrow> [RemoveElem k]),
       s\<lparr> currentMessages := filter (\<lambda>p. fst p \<noteq> k) (currentMessages s),
          processedMessageIds := processedMessageIds s - {k},
          children := remove_elem k (children s) \<rparr>))"

text \<open>Lines 591 to 604: the keys of the store that the snapshot lacks, then their removal.\<close>

definition cleanup :: "message list \<Rightarrow> state \<Rightarrow> dom_op list \<times> state" where
  "cleanup msgs s =
     (let validMsgIds = set (map msgId msgs);
          toRemove = filter (\<lambda>k. k \<notin> validMsgIds) (map fst (currentMessages s))
      in fold remove_msg toRemove ([], s))"

text \<open>Lines 533 to 545: the reset on a new conversation id.\<close>

definition is_new_conversation :: "state \<Rightarrow> conversation \<Rightarrow> bool" where
  "is_new_conversation s c =
     (case conv_id c of
        None \<Rightarrow> False
      | Some i \<Rightarrow> i \<noteq> [] \<and> currentConversationId s \<noteq> Some i)"

definition reset :: "conversation \<Rightarrow> state \<Rightarrow> state" where
  "reset c s =
     s\<lparr> children := [],
        currentMessages := [],
        processedMessageIds := {},
        currentConversationId := conv_id c,
        stored_conversation := conv_id c,
        stored_processed := Some [] \<rparr>"

text \<open>Lines 522 to 530: the placeholder path.\<close>

definition awaiting :: "state \<Rightarrow> state" where
  "awaiting s =
     s\<lparr> children := [LoadingAscii],
        currentMessages := [],
        processedMessageIds := {} \<rparr>"

text \<open>
  The messages of a conversation that passes the guard of line 522
  (\<^verbatim>\<open>!conversation || !conversation.messages || conversation.messages.length === 0\<close>).
\<close>

definition live_messages :: "conversation option \<Rightarrow> message list" where
  "live_messages conversation =
     (case conversation of
        None \<Rightarrow> []
      | Some c \<Rightarrow> (case messages c of None \<Rightarrow> [] | Some msgs \<Rightarrow> msgs))"

text \<open>The state in which the \<^verbatim>\<open>forEach\<close> of line 549 starts.\<close>

definition start_state :: "conversation \<Rightarrow> state \<Rightarrow> state" where
  "start_state c s = (if is_new_conversation s c then reset c s else s)"

definition updateCurrentConversation ::
    "conversation option \<Rightarrow> state \<Rightarrow> error + (dom_op list \<times> state)" where
  "updateCurrentConversation conversation s =
     (case conversation of
        None \<Rightarrow> Inr ([SetPlaceholder], awaiting s)
      | Some c \<Rightarrow>
          (case messages c of
             None \<Rightarrow> Inr ([SetPlaceholder], awaiting s)
           | Some [] \<Rightarrow> Inr ([SetPlaceholder], awaiting s)
           | Some msgs \<Rightarrow>
               let ops0 = (if is_new_conversation s c then [ClearChildren] else []);
                   s1 = start_state c s
               in (case render_all s1 msgs of
                     Inl e \<Rightarrow> Inl e
                   | Inr (ops1, s2) \<Rightarrow>
                       let (ops2, s3) = cleanup msgs s2
                       in Inr (ops0 @ ops1 @ ops2, s3))))"

text \<open>
  The state after the \<^verbatim>\<open>DOMContentLoaded\<close> handler (lines 408 to 412): an empty store, a
  container without message nodes (here with the placeholder as its only child), and the two
  \<^verbatim>\<open>window\<close> fields read from local storage
  (\<^verbatim>\<open>savedProcessedIds ? new Set(JSON.parse(savedProcessedIds)) : new Set()\<close>).
\<close>

definition initial_state :: "string option \<Rightarrow> string list option \<Rightarrow> state" where
  "initial_state saved_conv saved_ids =
     \<lparr> currentMessages = [],
       children = [LoadingAscii],
       processedMessageIds = (case saved_ids of None \<Rightarrow> {} | Some ids \<Rightarrow> set ids),
       currentConversationId = saved_conv,
       stored_conversation = saved_conv,
       stored_processed = saved_ids,
       autoScroll = True \<rparr>"

text \<open>Keys of the store, and the ids of the message nodes of the page.\<close>

definition store_keys :: "state \<Rightarrow> string list" where
  "store_keys s = map fst (currentMessages s)"

fun node_ids :: "elem list \<Rightarrow> string list" where
  "node_ids [] = []"
| "node_ids (LoadingAscii # es) = node_ids es"
| "node_ids (MsgDiv n # es) = node_id n # node_ids es"

text \<open>
  The store and the page agree: the same keys in the same order, none twice. Every
  state that the calls produce from the initial one is of this kind.
\<close>

definition consistent :: "state \<Rightarrow> bool" where
  "consistent s \<longleftrightarrow> store_keys s = node_ids (children s) \<and> distinct (store_keys s)"

text \<open>The rendered content of a key.\<close>

definition rendered :: "state \<Rightarrow> string \<Rightarrow> string option" where
  "rendered s k = map_option msg_content (getElementById k (children s))"

text \<open>The keys of the store that a snapshot lacks (\<^verbatim>\<open>toRemove\<close>).\<close>

definition stale_keys :: "message list \<Rightarrow> state \<Rightarrow> string list" where
  "stale_keys msgs s = filter (\<lambda>k. k \<notin> set (map msgId msgs)) (store_keys s)"

subsection \<open>The scenario of the specification\<close>

text \<open>
  The snapshot \<^verbatim>\<open>{current: {id: "c1", messages: [{agent: "OBSERVER", timestamp: 1000,
  content: t}]}}\<close>.
\<close>

definition scenario_msg :: "string \<Rightarrow> message" where
  "scenario_msg t = \<lparr> agent = ''OBSERVER'', timestamp = 1000, content = Some t \<rparr>"

definition scenario_snapshot :: "string \<Rightarrow> conversation option" where
  "scenario_snapshot t = Some \<lparr> conv_id = Some ''c1'', messages = Some [scenario_msg t] \<rparr>"

subsection \<open>Properties of a call\<close>

text \<open>
  A call resets when the conversation passes the guard of line 522 and the test of line 533
  holds.
\<close>

definition resets :: "conversation option \<Rightarrow> state \<Rightarrow> bool" where
  "resets conversation s =
     (case conversation of
        None \<Rightarrow> False
      | Some c \<Rightarrow> live_messages conversation \<noteq> [] \<and> is_new_conversation s c)"

text \<open>
  A message is settled in a state when its key is in the store and the rendered text is
  longer than the message's, or equal to it: the test of line 584 fails.
\<close>

definition settled :: "state \<Rightarrow> message \<Rightarrow> bool" where
  "settled s msg \<longleftrightarrow>
     msgId msg \<in> set (store_keys s)
     \<and> (case rendered s (msgId msg) of
          None \<Rightarrow> False
        | Some t \<Rightarrow> length (msg_text msg) < length t \<or> msg_text msg = t)"

subsection \<open>Example states\<close>

text \<open>
  A second message, a second conversation, and the states used at concrete inputs:
  \<open>hello_state\<close> is what the page at load, with \<^verbatim>\<open>c1\<close> and \<^verbatim>\<open>["EGO-2000"]\<close> in local
  storage, becomes on the snapshot of \<^verbatim>\<open>c1\<close> with the two messages.
\<close>

definition ego_msg :: message where
  "ego_msg = \<lparr> agent = ''EGO'', timestamp = 2000, content = Some ''...'' \<rparr>"

definition hello_state :: state where
  "hello_state =
     \<lparr> currentMessages = [(''OBSERVER-1000'', scenario_msg ''Hello''), (''EGO-2000'', ego_msg)],
       children = [LoadingAscii, MsgDiv (new_node (scenario_msg ''Hello'')), MsgDiv (new_node ego_msg)],
       processedMessageIds = {''EGO-2000''},
       currentConversationId = Some ''c1'',
       stored_conversation = Some ''c1'',
       stored_processed = Some [''EGO-2000''],
       autoScroll = True \<rparr>"

definition other_snapshot :: "string \<Rightarrow> conversation option" where
  "other_snapshot t = Some \<lparr> conv_id = Some ''c2'', messages = Some [scenario_msg t] \<rparr>"

definition reset_state :: state where
  "reset_state =
     \<lparr> currentMessages = [(''OBSERVER-1000'', scenario_msg ''Hi'')],
       children = [MsgDiv (new_node (scenario_msg ''Hi''))],
       processedMessageIds = {},
       currentConversationId = Some ''c2'',
       stored_conversation = Some ''c2'',
       stored_processed = Some [],
       autoScroll = True \<rparr>"

definition collected_state :: state where
  "collected_state =
     \<lparr> currentMessages = [(''OBSERVER-1000'', scenario_msg ''Hello'')],
       children = [LoadingAscii, MsgDiv (new_node (scenario_msg ''Hello''))],
       processedMessageIds = {},
       currentConversationId = Some ''c1'',
       stored_conversation = Some ''c1'',
       stored_processed = Some [''EGO-2000''],
       autoScroll = True \<rparr>"

definition regrown_state :: state where
  "regrown_state =
     \<lparr> currentMessages = [(''OBSERVER-1000'', scenario_msg ''Hi'')],
       children = [LoadingAscii, MsgDiv (new_node (scenario_msg ''Hi''))],
       processedMessageIds = {},
       currentConversationId = Some ''c1'',
       stored_conversation = Some ''c1'',
       stored_processed = Some [''EGO-2000''],
       autoScroll = True \<rparr>"

text \<open>
  The snapshot of \<^verbatim>\<open>c1\<close> with both messages, and \<open>hello_state\<close> after it when the first
  message has grown to \<^verbatim>\<open>Hello there\<close>.
\<close>

definition both_snapshot :: "string \<Rightarrow> conversation option" where
  "both_snapshot t = Some \<lparr> conv_id = Some ''c1'', messages = Some [scenario_msg t, ego_msg] \<rparr>"

definition grown_state :: state where
  "grown_state =
     hello_state\<lparr> children :=
       [LoadingAscii,
        MsgDiv ((new_node (scenario_msg ''Hello''))\<lparr>msg_content := ''Hello there''\<rparr>),
        MsgDiv (new_node ego_msg)] \<rparr>"

subsection \<open>The merge of one key\<close>

text \<open>
  The test of line 584 as a function of the displayed and the new text, its effect on the
  rendered content of a key \<open>k\<close> for one message (a message with another key leaves it as it
  is, a first message with the key renders its text), and for the messages of a snapshot in
  order.
\<close>

definition merge_text :: "string \<Rightarrow> string \<Rightarrow> string" where
  "merge_text oldText newText =
     (if length newText \<ge> length oldText \<and> newText \<noteq> oldText then newText else oldText)"

definition merge_msg :: "string \<Rightarrow> message \<Rightarrow> string option \<Rightarrow> string option" where
  "merge_msg k msg c =
     (if msgId msg = k then
        (case c of
           None \<Rightarrow> Some (msg_text msg)
         | Some oldText \<Rightarrow> Some (merge_text oldText (msg_text msg)))
      else c)"

definition merged :: "string \<Rightarrow> message list \<Rightarrow> string option \<Rightarrow> string option" where
  "merged k msgs c = fold (merge_msg k) msgs c"

text \<open>
  Two children of the container differ at most in the text of the message: both are the
  placeholder, or both are message nodes with the same id, class, agent label and time.
\<close>

fun same_header :: "elem \<Rightarrow> elem \<Rightarrow> bool" where
  "same_header LoadingAscii LoadingAscii = True"
| "same_header (MsgDiv n) (MsgDiv n') \<longleftrightarrow>
     node_id n' = node_id n \<and> class_name n' = class_name n
     \<and> msg_agent n' = msg_agent n \<and> msg_time n' = msg_time n"
| "same_header _ _ = False"

section \<open>Animation: \<open>ASCIIAnimator\<close>\<close>

text \<open>
  The class \<^verbatim>\<open>ASCIIAnimator\<close> of \<^verbatim>\<open>src/static/ascii_animator.js\<close>, lines 3 to 289. The numbers
  of the source are IEEE doubles; the embedding computes with real numbers, and
  \<^verbatim>\<open>Math.sin\<close> is the real sine. Each call of \<^verbatim>\<open>Math.random()\<close> reads the next element of a
  sequence of draws \<open>r\<close>, from a position that the functions pass on; a sequence of draws
  is admissible when every element lies in \<open>[0, 1)\<close>. A frame index is a natural number: it
  is the floor of a non-negative elapsed time.
\<close>

subsection \<open>The constructor\<close>

record animator =
  originalLines :: "string list"
  height :: nat
  width :: nat
  lines :: "string list"
  animationFrame :: nat
  animationId :: "nat option"
  currentAnimation :: "string option"
  fps :: nat

text \<open>\<^verbatim>\<open>trim\<close> on the ASCII white space, and \<^verbatim>\<open>split('\n')\<close>.\<close>

definition is_space :: "char \<Rightarrow> bool" where
  "is_space c \<longleftrightarrow> c \<in> set [CHR '' '', CHR 0x09, CHR 0x0A, CHR 0x0B, CHR 0x0C, CHR 0x0D]"

definition trim :: "string \<Rightarrow> string" where
  "trim s = rev (dropWhile is_space (rev (dropWhile is_space s)))"

fun split_newline :: "string \<Rightarrow> string list" where
  "split_newline [] = [[]]"
| "split_newline (c # cs) =
     (if c = CHR 0x0A then [] # split_newline cs
      else (case split_newline cs of
              [] \<Rightarrow> [[c]]
            | l # ls \<Rightarrow> (c # l) # ls))"

text \<open>\<^verbatim>\<open>line.padEnd(this.width, ' ')\<close> and \<^verbatim>\<open>Math.max(...lengths)\<close> of a list that is not empty.\<close>

definition padEnd :: "nat \<Rightarrow> string \<Rightarrow> string" where
  "padEnd w line = line @ replicate (w - length line) CHR '' ''"

definition max_length :: "string list \<Rightarrow> nat" where
  "max_length ls = fold max (map length ls) 0"

definition ASCIIAnimator :: "string \<Rightarrow> animator" where
  "ASCIIAnimator asciiArt =
     (let ol = split_newline (trim asciiArt);
          w = max_length ol
      in \<lparr> originalLines = ol,
           height = length ol,
           width = w,
           lines = map (padEnd w) ol,
           animationFrame = 0,
           animationId = None,
           currentAnimation = None,
           fps = 20 \<rparr>)"

text \<open>The grid of an animator is well formed: \<open>height\<close> rows of \<open>width\<close> characters.\<close>

definition grid :: "animator \<Rightarrow> bool" where
  "grid a \<longleftrightarrow> length (lines a) = height a \<and> list_all (\<lambda>l. length l = width a) (lines a)"

subsection \<open>Random draws\<close>

type_synonym rng = "nat \<Rightarrow> real"

definition admissible :: "rng \<Rightarrow> bool" where
  "admissible r \<longleftrightarrow> (\<forall>i. 0 \<le> r i \<and> r i < 1)"

text \<open>A loop over the rows (or the characters) that passes the position in the draws on.\<close>

fun thread :: "(nat \<Rightarrow> 'a \<Rightarrow> 'b \<times> nat) \<Rightarrow> nat \<Rightarrow> 'a list \<Rightarrow> 'b list \<times> nat" where
  "thread f i [] = ([], i)"
| "thread f i (x # xs) =
     (let (y, j) = f i x;
          (ys, k) = thread f j xs
      in (y # ys, k))"

subsection \<open>The effects\<close>

text \<open>
  The shift of a row, as \<^verbatim>\<open>waveEffect\<close> (lines 96 to 103) and \<^verbatim>\<open>shakeEffect\<close> (lines 172 to
  179) write it: \<^verbatim>\<open>' '.repeat(offset) + line.slice(0, -offset)\<close> to the right,
  \<^verbatim>\<open>line.slice(-offset) + ' '.repeat(-offset)\<close> to the left.
\<close>

definition shift_row :: "int \<Rightarrow> string \<Rightarrow> string" where
  "shift_row offset line =
     (if offset > 0 then replicate (nat offset) CHR '' '' @ take (length line - nat offset) line
      else if offset < 0 then drop (nat (- offset)) line @ replicate (nat (- offset)) CHR '' ''
      else line)"

text \<open>
  The shift as \<^verbatim>\<open>glitchEffect\<close> (lines 199 to 203) and \<^verbatim>\<open>danceEffect\<close> (lines 236 to 240) write
  it, with two branches.
\<close>

definition shift_row2 :: "int \<Rightarrow> string \<Rightarrow> string" where
  "shift_row2 offset line =
     (if offset > 0 then replicate (nat offset) CHR '' '' @ take (length line - nat offset) line
      else drop (nat (- offset)) line @ replicate (nat (- offset)) CHR '' '')"

definition blank_row :: "animator \<Rightarrow> string" where
  "blank_row a = replicate (width a) CHR '' ''"

text \<open>\<^verbatim>\<open>waveEffect\<close>, lines 90 to 108.\<close>

definition wave_offset :: "nat \<Rightarrow> nat \<Rightarrow> int" where
  "wave_offset y frame = \<lfloor>sin (real y * 0.2 + real frame * 0.2) * 4\<rfloor>"

definition waveEffect :: "animator \<Rightarrow> nat \<Rightarrow> string list" where
  "waveEffect a frame =
     map (\<lambda>y. shift_row (wave_offset y frame) (lines a ! y)) [0..<length (lines a)]"

text \<open>\<^verbatim>\<open>pulseEffect\<close>, lines 110 to 139.\<close>

definition pulse_scale :: "nat \<Rightarrow> real" where
  "pulse_scale frame = 1.0 + sin (real frame * 0.1) * 0.1"

definition emptyLines :: "animator \<Rightarrow> nat \<Rightarrow> nat" where
  "emptyLines a frame = nat \<lfloor>(real (height a) * (pulse_scale frame - 1)) / 2\<rfloor>"

fun stretch :: "rng \<Rightarrow> real \<Rightarrow> nat \<Rightarrow> string \<Rightarrow> string \<times> nat" where
  "stretch r p i [] = ([], i)"
| "stretch r p i (c # cs) =
     (let (t, j) = stretch r p (Suc i) cs
      in ((if r i < p then [c, c] else [c]) @ t, j))"

definition stretch_row :: "animator \<Rightarrow> rng \<Rightarrow> real \<Rightarrow> nat \<Rightarrow> string \<Rightarrow> string \<times> nat" where
  "stretch_row a r p i line = (let (t, j) = stretch r p i line in (take (width a) t, j))"

fun drop_rows :: "rng \<Rightarrow> real \<Rightarrow> nat \<Rightarrow> string list \<Rightarrow> string list \<times> nat" where
  "drop_rows r scale i [] = ([], i)"
| "drop_rows r scale i (line # ls) =
     (let (rest, j) = drop_rows r scale (Suc i) ls
      in ((if r i > 1 - scale then [line] else []) @ rest, j))"

definition pulseEffect :: "animator \<Rightarrow> nat \<Rightarrow> rng \<Rightarrow> nat \<Rightarrow> string list \<times> nat" where
  "pulseEffect a frame r i =
     (let scale = pulse_scale frame in
      if scale > 1 then
        (let (rows, j) = thread (stretch_row a r (scale - 1)) i (lines a)
         in (replicate (emptyLines a frame) (blank_row a) @ rows, j))
      else drop_rows r scale i (lines a))"

text \<open>\<^verbatim>\<open>bounceEffect\<close>, lines 141 to 155.\<close>

definition bounceHeight :: "nat \<Rightarrow> nat" where
  "bounceHeight frame = nat \<bar>\<lfloor>sin (real frame * 0.2) * 5\<rfloor>\<bar>"

definition bounceEffect :: "animator \<Rightarrow> nat \<Rightarrow> string list" where
  "bounceEffect a frame =
     take (height a) (replicate (bounceHeight frame) (blank_row a) @ lines a)"

text \<open>\<^verbatim>\<open>shakeEffect\<close>, lines 157 to 184: two draws, \<^verbatim>\<open>shakeX\<close> first.\<close>

definition shakeX :: "real \<Rightarrow> int" where
  "shakeX x = \<lfloor>x * 5\<rfloor> - 2"

definition shakeY :: "real \<Rightarrow> int" where
  "shakeY x = \<lfloor>x * 3\<rfloor> - 1"

definition shakeEffect :: "animator \<Rightarrow> nat \<Rightarrow> rng \<Rightarrow> nat \<Rightarrow> string list \<times> nat" where
  "shakeEffect a frame r i =
     (let sx = shakeX (r i);
          sy = shakeY (r (Suc i))
      in (take (height a)
            ((if sy > 0 then replicate (nat sy) (blank_row a) else [])
               @ map (shift_row sx) (lines a)),
          i + 2))"

text \<open>\<^verbatim>\<open>glitchEffect\<close>, lines 186 to 223.\<close>

definition glitch_symbol :: "real \<Rightarrow> char" where
  "glitch_symbol x = ''!@#$%^&*'' ! nat \<lfloor>x * 8\<rfloor>"

fun corrupt :: "rng \<Rightarrow> nat \<Rightarrow> string \<Rightarrow> string \<times> nat" where
  "corrupt r i [] = ([], i)"
| "corrupt r i (c # cs) =
     (if c \<noteq> CHR '' '' then
        (if r i < 0.3 then
           (let (t, j) = corrupt r (i + 2) cs in (glitch_symbol (r (Suc i)) # t, j))
         else
           (let (t, j) = corrupt r (Suc i) cs in (c # t, j)))
      else
        (let (t, j) = corrupt r i cs in (c # t, j)))"

definition glitch_row :: "rng \<Rightarrow> real \<Rightarrow> nat \<Rightarrow> string \<Rightarrow> string \<times> nat" where
  "glitch_row r glitchIntensity i line =
     (if r i < glitchIntensity * 0.1 then
        (if r (i + 1) < 0.5 then (shift_row2 (\<lfloor>r (i + 2) * 11\<rfloor> - 5) line, i + 3)
         else corrupt r (i + 2) line)
      else (line, i + 1))"

definition glitchEffect :: "animator \<Rightarrow> nat \<Rightarrow> rng \<Rightarrow> nat \<Rightarrow> string list \<times> nat" where
  "glitchEffect a frame r i = thread (glitch_row r (r i)) (Suc i) (lines a)"

text \<open>\<^verbatim>\<open>matrixEffect\<close>, lines 253 to 269.\<close>

fun matrix_row :: "rng \<Rightarrow> nat \<Rightarrow> string \<Rightarrow> string \<times> nat" where
  "matrix_row r i [] = ([], i)"
| "matrix_row r i (c # cs) =
     (if c \<noteq> CHR '' '' then
        (if r i < 0.05 then
           (let (t, j) = matrix_row r (i + 2) cs
            in ((if r (Suc i) < 0.5 then CHR ''0'' else CHR ''1'') # t, j))
         else
           (let (t, j) = matrix_row r (Suc i) cs in (c # t, j)))
      else
        (let (t, j) = matrix_row r i cs in (c # t, j)))"

definition matrixEffect :: "animator \<Rightarrow> nat \<Rightarrow> rng \<Rightarrow> nat \<Rightarrow> string list \<times> nat" where
  "matrixEffect a frame r i = thread (matrix_row r) i (lines a)"

text \<open>\<^verbatim>\<open>blinkEffect\<close>, lines 271 to 288.\<close>

definition blinkEffect :: "animator \<Rightarrow> nat \<Rightarrow> string list" where
  "blinkEffect a frame =
     (let blinkOn = (frame mod 30 > 5)
      in map (map (\<lambda>c. if c \<in> set ''oO0@*'' \<and> \<not> blinkOn then CHR ''-'' else c)) (lines a))"

text \<open>\<^verbatim>\<open>danceEffect\<close>, lines 225 to 251.\<close>

definition danceEffect :: "animator \<Rightarrow> nat \<Rightarrow> rng \<Rightarrow> nat \<Rightarrow> string list \<times> nat" where
  "danceEffect a frame r i =
     (let currentMove = (frame div 20) mod 4 in
      if currentMove = 0 then
        (map (shift_row2 \<lfloor>sin (real frame * 0.3) * 5\<rfloor>) (lines a), i)
      else if currentMove = 1 then (bounceEffect a frame, i)
      else if currentMove = 2 then (waveEffect a frame, i)
      else shakeEffect a frame r i)"

text \<open>The \<^verbatim>\<open>switch\<close> of lines 47 to 74.\<close>

definition effect_frame :: "animator \<Rightarrow> string \<Rightarrow> nat \<Rightarrow> rng \<Rightarrow> nat \<Rightarrow> string list \<times> nat" where
  "effect_frame a name frame r i =
     (if name = ''wave'' then (waveEffect a frame, i)
      else if name = ''pulse'' then pulseEffect a frame r i
      else if name = ''bounce'' then (bounceEffect a frame, i)
      else if name = ''shake'' then shakeEffect a frame r i
      else if name = ''glitch'' then glitchEffect a frame r i
      else if name = ''dance'' then danceEffect a frame r i
      else if name = ''matrix'' then matrixEffect a frame r i
      else if name = ''blink'' then (blinkEffect a frame, i)
      else (lines a, i))"

subsection \<open>The scheduler\<close>

text \<open>
  What the scheduler touches of the page: the text of the \<^verbatim>\<open>#ascii-art\<close> element (\<open>None\<close>
  when the page has no such element), the handles of the pending
  \<^verbatim>\<open>requestAnimationFrame\<close> callbacks, and the next handle. A handle is a positive number,
  and a new one is not among the pending ones.
\<close>

record browser =
  art_text :: "string option"
  frame_requests :: "nat list"
  next_handle :: nat

definition fresh_handles :: "browser \<Rightarrow> bool" where
  "fresh_handles b \<longleftrightarrow> next_handle b \<noteq> 0 \<and> next_handle b \<notin> set (frame_requests b)"

text \<open>\<^verbatim>\<open>lines.join('\n')\<close>.\<close>

fun join_lines :: "string list \<Rightarrow> string" where
  "join_lines [] = []"
| "join_lines [l] = l"
| "join_lines (l # ls) = l @ CHR 0x0A # join_lines ls"

text \<open>\<^verbatim>\<open>displayFrame\<close>, lines 83 to 88.\<close>

definition displayFrame :: "string list \<Rightarrow> browser \<Rightarrow> browser" where
  "displayFrame ls b =
     (case art_text b of
        None \<Rightarrow> b
      | Some _ \<Rightarrow> b\<lparr>art_text := Some (join_lines ls)\<rparr>)"

definition requestAnimationFrame :: "browser \<Rightarrow> nat \<times> browser" where
  "requestAnimationFrame b =
     (next_handle b,
      b\<lparr> frame_requests := frame_requests b @ [next_handle b],
         next_handle := Suc (next_handle b) \<rparr>)"

definition cancelAnimationFrame :: "nat \<Rightarrow> browser \<Rightarrow> browser" where
  "cancelAnimationFrame h b = b\<lparr>frame_requests := removeAll h (frame_requests b)\<rparr>"

text \<open>\<^verbatim>\<open>stopAnimation\<close>, lines 25 to 32; \<^verbatim>\<open>if (this.animationId)\<close> fails for \<^verbatim>\<open>null\<close> and for 0.\<close>

definition stopAnimation :: "animator \<times> browser \<Rightarrow> animator \<times> browser" where
  "stopAnimation ab =
     (let (a, b) = ab;
          (a1, b1) =
            (case animationId a of
               None \<Rightarrow> (a, b)
             | Some h \<Rightarrow>
                 if h \<noteq> 0 then (a\<lparr>animationId := None\<rparr>, cancelAnimationFrame h b)
                 else (a, b));
          a2 = a1\<lparr>currentAnimation := None\<rparr>
      in (a2, displayFrame (lines a2) b1))"

text \<open>
  The closure \<^verbatim>\<open>frame\<close> of \<^verbatim>\<open>animate\<close>, lines 39 to 78, for the start time that \<^verbatim>\<open>animate\<close>
  has read and the time that the call reads (\<^verbatim>\<open>performance.now()\<close> does not decrease).
\<close>

definition frame_callback ::
    "real \<Rightarrow> real \<Rightarrow> rng \<Rightarrow> nat \<Rightarrow> animator \<times> browser \<Rightarrow> (animator \<times> browser) \<times> nat" where
  "frame_callback startTime currentTime r i ab =
     (let (a, b) = ab;
          deltaTime = currentTime - startTime;
          a1 = a\<lparr>animationFrame := nat \<lfloor>deltaTime / (1000 / real (fps a))\<rfloor>\<rparr>;
          (animatedLines, j) =
            (case currentAnimation a1 of
               None \<Rightarrow> (lines a1, i)
             | Some name \<Rightarrow> effect_frame a1 name (animationFrame a1) r i);
          b1 = displayFrame animatedLines b;
          (h, b2) = requestAnimationFrame b1
      in ((a1\<lparr>animationId := Some h\<rparr>, b2), j))"

text \<open>\<^verbatim>\<open>animate\<close>, lines 34 to 81; \<^verbatim>\<open>!this.currentAnimation\<close> holds for \<^verbatim>\<open>null\<close> and for the empty string.\<close>

definition animate ::
    "real \<Rightarrow> real \<Rightarrow> rng \<Rightarrow> nat \<Rightarrow> animator \<times> browser \<Rightarrow> (animator \<times> browser) \<times> nat" where
  "animate startTime currentTime r i ab =
     (case currentAnimation (fst ab) of
        None \<Rightarrow> (ab, i)
      | Some name \<Rightarrow>
          if name = [] then (ab, i) else frame_callback startTime currentTime r i ab)"

text \<open>\<^verbatim>\<open>startAnimation\<close>, lines 18 to 23.\<close>

definition startAnimation ::
    "string \<Rightarrow> real \<Rightarrow> real \<Rightarrow> rng \<Rightarrow> nat \<Rightarrow> animator \<times> browser \<Rightarrow> (animator \<times> browser) \<times> nat" where
  "startAnimation animationType startTime currentTime r i ab =
     (let (a, b) = stopAnimation ab;
          a1 = a\<lparr>currentAnimation := Some animationType, animationFrame := 0\<rparr>
      in animate startTime currentTime r i (a1, b))"

subsection \<open>Example grids and draws\<close>

text \<open>Constant sequences of draws, a grid of forty rows of one character, and a grid of three rows.\<close>

definition zero_draws :: rng where
  "zero_draws = (\<lambda>_. 0)"

definition high_draws :: rng where
  "high_draws = (\<lambda>_. 9 / 10)"

definition tall_art :: string where
  "tall_art = concat (replicate 39 (''#'' @ [CHR 0x0A])) @ ''#''"

definition tall_animator :: animator where
  "tall_animator = ASCIIAnimator tall_art"

definition box_art :: string where
  "box_art = ''+---+'' @ [CHR 0x0A] @ ''|o o|'' @ [CHR 0x0A] @ ''+---+'' @ [CHR 0x0A]"

definition box_animator :: animator where
  "box_animator = ASCIIAnimator box_art"

text \<open>An art with rows of different lengths, and a page with the art element and no pending callback.\<close>

definition ragged_art :: string where
  "ragged_art = ''  ab'' @ [CHR 0x0A] @ ''cdef'' @ [CHR 0x0A] @ ''g'' @ [CHR 0x0A]"

definition idle_browser :: browser where
  "idle_browser = \<lparr> art_text = Some [], frame_requests = [], next_handle = 1 \<rparr>"

section \<open>Facts about the page operations\<close>

lemma node_ids_append: "node_ids (es @ es') = node_ids es @ node_ids es'"
  by (induction es rule: node_ids.induct) auto

lemma getElementById_None_iff: "getElementById k es = None \<longleftrightarrow> k \<notin> set (node_ids es)"
  by (induction k es rule: getElementById.induct) auto

lemma getElementById_SomeD: "getElementById k es = Some n \<Longrightarrow> node_id n = k \<and> MsgDiv n \<in> set es"
  by (induction k es rule: getElementById.induct) (auto split: if_splits)

lemma getElementById_append:
  "getElementById k (es @ es') =
     (case getElementById k es of Some n \<Rightarrow> Some n | None \<Rightarrow> getElementById k es')"
  by (induction k es rule: getElementById.induct) auto

lemma node_ids_set_content: "node_ids (set_content k t es) = node_ids es"
  by (induction k t es rule: set_content.induct) auto

lemma node_ids_remove_elem: "node_ids (remove_elem k es) = remove1 k (node_ids es)"
  by (induction k es rule: remove_elem.induct) auto

lemma getElementById_set_content:
  "getElementById k' (set_content k t es) =
     (if k' = k then map_option (\<lambda>n. n\<lparr>msg_content := t\<rparr>) (getElementById k es)
      else getElementById k' es)"
  by (induction k t es rule: set_content.induct) auto

lemma getElementById_remove_elem_other:
  "k' \<noteq> k \<Longrightarrow> getElementById k' (remove_elem k es) = getElementById k' es"
  by (induction k es rule: remove_elem.induct) auto

lemma remove_elem_absent: "k \<notin> set (node_ids es) \<Longrightarrow> remove_elem k es = es"
  by (induction k es rule: remove_elem.induct) auto

section \<open>Facts about the message loop\<close>

lemma store_keys_set: "fst ` set (currentMessages s) = set (store_keys s)"
  by (simp add: store_keys_def)

lemma rendered_None_iff: "rendered s k = None \<longleftrightarrow> k \<notin> set (node_ids (children s))"
  by (simp add: rendered_def getElementById_None_iff)

lemma render_msg_new:
  "msgId msg \<notin> set (store_keys s) \<Longrightarrow>
   render_msg s msg =
     Inr (AppendChild (msgId msg) # scroll_ops s,
          s\<lparr> currentMessages := currentMessages s @ [(msgId msg, msg)],
             children := children s @ [MsgDiv (new_node msg)] \<rparr>)"
  by (simp add: render_msg_def store_keys_set Let_def)

lemma render_msg_seen:
  "msgId msg \<in> set (store_keys s) \<Longrightarrow> getElementById (msgId msg) (children s) = Some existing \<Longrightarrow>
   render_msg s msg =
     (if length (msg_text msg) \<ge> length (msg_content existing) \<and> msg_text msg \<noteq> msg_content existing
      then Inr (SetContent (msgId msg) (msg_text msg) # scroll_ops s,
                s\<lparr> children := set_content (msgId msg) (msg_text msg) (children s) \<rparr>)
      else Inr ([], s))"
  by (simp add: render_msg_def store_keys_set Let_def)

lemma consistent_lookup:
  "consistent s \<Longrightarrow> k \<in> set (store_keys s) \<Longrightarrow> \<exists>n. getElementById k (children s) = Some n"
  by (cases "getElementById k (children s)") (auto simp: consistent_def getElementById_None_iff)

lemma render_msg_total:
  assumes "consistent s"
  shows "\<exists>ops s'. render_msg s msg = Inr (ops, s')"
proof (cases "msgId msg \<in> set (store_keys s)")
  case True
  then obtain n where "getElementById (msgId msg) (children s) = Some n"
    using consistent_lookup [OF assms] by blast
  with True show ?thesis by (simp add: render_msg_seen)
next
  case False
  then show ?thesis by (simp add: render_msg_new)
qed

lemma render_msg_fields:
  assumes "render_msg s msg = Inr (ops, s')"
  shows "processedMessageIds s' = processedMessageIds s"
    and "currentConversationId s' = currentConversationId s"
    and "stored_conversation s' = stored_conversation s"
    and "stored_processed s' = stored_processed s"
    and "autoScroll s' = autoScroll s"
  using assms
  by (auto simp: render_msg_def Let_def split: if_splits option.splits)

lemma render_msg_keys:
  assumes "render_msg s msg = Inr (ops, s')"
  shows "store_keys s' =
           (if msgId msg \<in> set (store_keys s) then store_keys s else store_keys s @ [msgId msg])"
  using assms
  by (auto simp: render_msg_def Let_def store_keys_def split: if_splits option.splits)

lemma render_msg_node_ids:
  assumes "render_msg s msg = Inr (ops, s')"
  shows "node_ids (children s') =
           (if msgId msg \<in> set (store_keys s) then node_ids (children s)
            else node_ids (children s) @ [msgId msg])"
  using assms
  by (auto simp: render_msg_def Let_def store_keys_def node_ids_append node_ids_set_content new_node_def
      split: if_splits option.splits)

lemma render_msg_consistent:
  assumes "consistent s" "render_msg s msg = Inr (ops, s')"
  shows "consistent s'"
  using assms render_msg_keys [OF assms(2)] render_msg_node_ids [OF assms(2)]
  by (auto simp: consistent_def)

lemma render_msg_rendered_other:
  assumes "render_msg s msg = Inr (ops, s')" "k \<noteq> msgId msg"
  shows "rendered s' k = rendered s k"
  using assms
  by (auto simp: render_msg_def Let_def rendered_def getElementById_append getElementById_set_content new_node_def
      split: if_splits option.splits)

lemma render_msg_rendered_new:
  assumes "consistent s" "render_msg s msg = Inr (ops, s')" "msgId msg \<notin> set (store_keys s)"
  shows "rendered s' (msgId msg) = Some (msg_text msg)"
proof -
  have "getElementById (msgId msg) (children s) = None"
    using assms(1,3) by (simp add: getElementById_None_iff consistent_def)
  then show ?thesis
    using assms(2,3)
    by (auto simp: render_msg_new rendered_def getElementById_append new_node_def)
qed

lemma render_msg_rendered_seen:
  assumes "render_msg s msg = Inr (ops, s')" "msgId msg \<in> set (store_keys s)"
    "rendered s (msgId msg) = Some old"
  shows "rendered s' (msgId msg) =
           Some (if length (msg_text msg) \<ge> length old \<and> msg_text msg \<noteq> old then msg_text msg else old)"
  using assms
  by (auto simp: render_msg_def Let_def rendered_def store_keys_set getElementById_set_content
      split: if_splits option.splits)


lemma render_all_total:
  "consistent s \<Longrightarrow> \<exists>ops s'. render_all s msgs = Inr (ops, s') \<and> consistent s'"
proof (induction msgs arbitrary: s)
  case Nil
  then show ?case by simp
next
  case (Cons m ms)
  obtain ops1 s1 where r: "render_msg s m = Inr (ops1, s1)"
    using render_msg_total [OF Cons.prems] by blast
  then have "consistent s1" using Cons.prems render_msg_consistent by blast
  from Cons.IH [OF this] obtain ops2 s2 where "render_all s1 ms = Inr (ops2, s2)" "consistent s2"
    by blast
  with r show ?case by simp
qed

lemma render_all_ConsD:
  assumes "render_all s (m # ms) = Inr (ops, s')"
  obtains ops1 s1 ops2 where "render_msg s m = Inr (ops1, s1)" "render_all s1 ms = Inr (ops2, s')"
    "ops = ops1 @ ops2"
  using assms by (auto split: sum.splits prod.splits)

lemma render_all_fields:
  assumes "render_all s msgs = Inr (ops, s')"
  shows "processedMessageIds s' = processedMessageIds s
    \<and> currentConversationId s' = currentConversationId s
    \<and> stored_conversation s' = stored_conversation s
    \<and> stored_processed s' = stored_processed s
    \<and> autoScroll s' = autoScroll s"
  using assms
proof (induction msgs arbitrary: s ops)
  case Nil
  then show ?case by simp
next
  case (Cons m ms)
  from Cons.prems obtain ops1 s1 ops2 where
    r: "render_msg s m = Inr (ops1, s1)" "render_all s1 ms = Inr (ops2, s')"
    by (rule render_all_ConsD)
  show ?case using Cons.IH [OF r(2)] render_msg_fields [OF r(1)] by simp
qed

lemma render_all_consistent:
  assumes "consistent s" "render_all s msgs = Inr (ops, s')"
  shows "consistent s'"
  using render_all_total [OF assms(1), of msgs] assms(2) by auto

lemma render_all_key_set:
  assumes "render_all s msgs = Inr (ops, s')"
  shows "set (store_keys s') = set (store_keys s) \<union> set (map msgId msgs)"
  using assms
proof (induction msgs arbitrary: s ops)
  case Nil
  then show ?case by simp
next
  case (Cons m ms)
  from Cons.prems obtain ops1 s1 ops2 where
    r: "render_msg s m = Inr (ops1, s1)" "render_all s1 ms = Inr (ops2, s')"
    by (rule render_all_ConsD)
  show ?case using Cons.IH [OF r(2)] render_msg_keys [OF r(1)] by auto
qed

lemma render_all_rendered_other:
  assumes "render_all s msgs = Inr (ops, s')" "k \<notin> set (map msgId msgs)"
  shows "rendered s' k = rendered s k"
  using assms
proof (induction msgs arbitrary: s ops)
  case Nil
  then show ?case by simp
next
  case (Cons m ms)
  from Cons.prems(1) obtain ops1 s1 ops2 where
    r: "render_msg s m = Inr (ops1, s1)" "render_all s1 ms = Inr (ops2, s')"
    by (rule render_all_ConsD)
  have "rendered s1 k = rendered s k"
    using render_msg_rendered_other [OF r(1)] Cons.prems(2) by auto
  moreover have "rendered s' k = rendered s1 k"
    using Cons.IH [OF r(2)] Cons.prems(2) by simp
  ultimately show ?case by simp
qed

lemma render_msg_monotone:
  assumes "render_msg s msg = Inr (ops, s')" "rendered s k = Some t"
  shows "\<exists>t'. rendered s' k = Some t' \<and> length t \<le> length t'"
proof (cases "k = msgId msg")
  case False
  then show ?thesis using render_msg_rendered_other [OF assms(1)] assms(2) by simp
next
  case True
  have "k \<in> set (node_ids (children s))"
    using assms(2) rendered_None_iff [of s k] by auto
  show ?thesis
  proof (cases "msgId msg \<in> set (store_keys s)")
    case True
    show ?thesis
      using render_msg_rendered_seen [OF assms(1) True] assms(2) \<open>k = msgId msg\<close> by auto
  next
    case False
    then show ?thesis
      using assms \<open>k = msgId msg\<close>
      by (auto simp: render_msg_new rendered_def getElementById_append split: option.splits)
  qed
qed

lemma render_all_monotone:
  assumes "render_all s msgs = Inr (ops, s')" "rendered s k = Some t"
  shows "\<exists>t'. rendered s' k = Some t' \<and> length t \<le> length t'"
  using assms
proof (induction msgs arbitrary: s ops t)
  case Nil
  then show ?case by simp
next
  case (Cons m ms)
  from Cons.prems(1) obtain ops1 s1 ops2 where
    r: "render_msg s m = Inr (ops1, s1)" "render_all s1 ms = Inr (ops2, s')"
    by (rule render_all_ConsD)
  obtain t1 where t1: "rendered s1 k = Some t1" "length t \<le> length t1"
    using render_msg_monotone [OF r(1) Cons.prems(2)] by blast
  obtain t' where "rendered s' k = Some t'" "length t1 \<le> length t'"
    using Cons.IH [OF r(2) t1(1)] by blast
  with t1 show ?case by auto
qed

section \<open>Facts about the cleanup\<close>

lemma fold_remove_msg_fields:
  "currentMessages (snd (fold remove_msg ks acc)) =
     filter (\<lambda>p. fst p \<notin> set ks) (currentMessages (snd acc))
   \<and> processedMessageIds (snd (fold remove_msg ks acc)) = processedMessageIds (snd acc) - set ks
   \<and> children (snd (fold remove_msg ks acc)) = fold remove_elem ks (children (snd acc))
   \<and> currentConversationId (snd (fold remove_msg ks acc)) = currentConversationId (snd acc)
   \<and> stored_conversation (snd (fold remove_msg ks acc)) = stored_conversation (snd acc)
   \<and> stored_processed (snd (fold remove_msg ks acc)) = stored_processed (snd acc)
   \<and> autoScroll (snd (fold remove_msg ks acc)) = autoScroll (snd acc)"
proof (induction ks arbitrary: acc)
  case Nil
  then show ?case by simp
next
  case (Cons k ks)
  have "filter (\<lambda>p. fst p \<notin> set ks) (filter (\<lambda>p. fst p \<noteq> k) xs)
          = filter (\<lambda>p. fst p \<notin> set (k # ks)) xs" for xs :: "(string \<times> message) list"
    by (induction xs) auto
  moreover have "A - {k} - set ks = A - set (k # ks)" for A :: "string set"
    by auto
  ultimately show ?case
    using Cons.IH [of "remove_msg k acc"]
    by (simp add: remove_msg_def Let_def)
qed

lemma node_ids_fold_remove_elem:
  "node_ids (fold remove_elem ks es) = fold remove1 ks (node_ids es)"
  by (induction ks arbitrary: es) (simp_all add: node_ids_remove_elem)

lemma fold_remove1_distinct:
  "distinct xs \<Longrightarrow> fold remove1 ks xs = filter (\<lambda>k. k \<notin> set ks) xs"
proof (induction ks arbitrary: xs)
  case Nil
  then show ?case by simp
next
  case (Cons k ks)
  have "fold remove1 (k # ks) xs = fold remove1 ks (remove1 k xs)" by simp
  also have "\<dots> = filter (\<lambda>k. k \<notin> set ks) (remove1 k xs)"
    using Cons.IH [of "remove1 k xs"] Cons.prems by simp
  also have "remove1 k xs = filter (\<lambda>x. x \<noteq> k) xs"
    using Cons.prems by (simp add: distinct_remove1_removeAll removeAll_filter_not_eq) metis
  finally show ?case by (simp add: conj_commute)
qed

lemma getElementById_fold_remove_elem:
  "k' \<notin> set ks \<Longrightarrow> getElementById k' (fold remove_elem ks es) = getElementById k' es"
  by (induction ks arbitrary: es) (auto simp: getElementById_remove_elem_other)

lemma cleanup_snd:
  "snd (cleanup msgs s) = snd (fold remove_msg (stale_keys msgs s) ([], s))"
  by (simp add: cleanup_def stale_keys_def store_keys_def Let_def)

lemma cleanup_fields:
  "processedMessageIds (snd (cleanup msgs s)) = processedMessageIds s - set (stale_keys msgs s)"
  "currentConversationId (snd (cleanup msgs s)) = currentConversationId s"
  "stored_conversation (snd (cleanup msgs s)) = stored_conversation s"
  "stored_processed (snd (cleanup msgs s)) = stored_processed s"
  "autoScroll (snd (cleanup msgs s)) = autoScroll s"
  using fold_remove_msg_fields [of "stale_keys msgs s" "([], s)"]
  by (simp_all add: cleanup_snd)

lemma cleanup_store_keys:
  "store_keys (snd (cleanup msgs s)) = filter (\<lambda>k. k \<in> set (map msgId msgs)) (store_keys s)"
proof -
  have "currentMessages (snd (cleanup msgs s)) =
          filter (\<lambda>p. fst p \<notin> set (stale_keys msgs s)) (currentMessages s)"
    using fold_remove_msg_fields [of "stale_keys msgs s" "([], s)"] by (simp add: cleanup_snd)
  then show ?thesis
    by (auto simp: store_keys_def stale_keys_def filter_map comp_def intro!: arg_cong [where f = "map fst"] filter_cong)
qed

lemma consistentD:
  assumes "consistent s"
  shows "node_ids (children s) = store_keys s" "distinct (store_keys s)"
    "distinct (node_ids (children s))"
  using assms by (auto simp: consistent_def)

lemma cleanup_node_ids:
  assumes "consistent s"
  shows "node_ids (children (snd (cleanup msgs s))) =
           filter (\<lambda>k. k \<in> set (map msgId msgs)) (store_keys s)"
proof -
  have "children (snd (cleanup msgs s)) = fold remove_elem (stale_keys msgs s) (children s)"
    using fold_remove_msg_fields [of "stale_keys msgs s" "([], s)"] by (simp add: cleanup_snd)
  then have "node_ids (children (snd (cleanup msgs s))) =
               filter (\<lambda>k. k \<notin> set (stale_keys msgs s)) (store_keys s)"
    using consistentD [OF assms] by (simp add: node_ids_fold_remove_elem fold_remove1_distinct)
  then show ?thesis
    by (auto simp: stale_keys_def intro!: filter_cong)
qed

lemma cleanup_consistent:
  assumes "consistent s"
  shows "consistent (snd (cleanup msgs s))"
  using consistentD(2) [OF assms] cleanup_node_ids [OF assms, of msgs]
  by (simp add: consistent_def cleanup_store_keys)

lemma cleanup_rendered:
  assumes "consistent s"
  shows "rendered (snd (cleanup msgs s)) k =
           (if k \<in> set (map msgId msgs) then rendered s k else None)"
proof (cases "k \<in> set (map msgId msgs)")
  case True
  have "children (snd (cleanup msgs s)) = fold remove_elem (stale_keys msgs s) (children s)"
    using fold_remove_msg_fields [of "stale_keys msgs s" "([], s)"] by (simp add: cleanup_snd)
  moreover have "k \<notin> set (stale_keys msgs s)" using True by (simp add: stale_keys_def)
  ultimately show ?thesis
    using True by (simp add: rendered_def getElementById_fold_remove_elem)
next
  case False
  have "k \<notin> set (node_ids (children (snd (cleanup msgs s))))"
    using False by (simp add: cleanup_node_ids [OF assms])
  then show ?thesis using False by (simp add: rendered_None_iff)
qed

lemma cleanup_nothing:
  assumes "set (store_keys s) \<subseteq> set (map msgId msgs)"
  shows "cleanup msgs s = ([], s)"
proof -
  have "filter (\<lambda>k. k \<notin> set (map msgId msgs)) (map fst (currentMessages s)) = []"
    using assms by (auto simp: store_keys_def filter_empty_conv)
  then show ?thesis by (simp add: cleanup_def Let_def)
qed

section \<open>Facts about the whole call\<close>

lemma update_awaiting:
  "live_messages conversation = [] \<Longrightarrow>
   updateCurrentConversation conversation s = Inr ([SetPlaceholder], awaiting s)"
  by (auto simp: updateCurrentConversation_def live_messages_def split: option.splits list.splits)

lemma update_live:
  assumes "conversation = Some c" "messages c = Some msgs" "msgs \<noteq> []"
    "render_all (start_state c s) msgs = Inr (ops1, s2)"
  shows "updateCurrentConversation conversation s =
           Inr ((if is_new_conversation s c then [ClearChildren] else []) @ ops1
                  @ fst (cleanup msgs s2),
                snd (cleanup msgs s2))"
  using assms
  by (cases msgs) (simp_all add: updateCurrentConversation_def Let_def split_beta)

lemma live_cases:
  obtains (awaiting) "live_messages conversation = []"
  | (live) c msgs where "conversation = Some c" "messages c = Some msgs" "msgs \<noteq> []"
      "live_messages conversation = msgs"
proof (cases conversation)
  case None
  then show ?thesis using awaiting by (simp add: live_messages_def)
next
  case (Some c)
  show ?thesis
  proof (cases "messages c")
    case None
    then show ?thesis using Some awaiting by (simp add: live_messages_def)
  next
    case (Some msgs)
    show ?thesis
    proof (cases "msgs = []")
      case True
      then show ?thesis using Some \<open>conversation = Some c\<close> awaiting by (simp add: live_messages_def)
    next
      case False
      then show ?thesis using Some \<open>conversation = Some c\<close> live [of c msgs] by (simp add: live_messages_def)
    qed
  qed
qed

lemma consistent_awaiting: "consistent (awaiting s)"
  by (simp add: consistent_def awaiting_def store_keys_def)

lemma consistent_reset: "consistent (reset c s)"
  by (simp add: consistent_def reset_def store_keys_def)

lemma consistent_start_state: "consistent s \<Longrightarrow> consistent (start_state c s)"
  by (simp add: start_state_def consistent_reset)

lemma consistent_initial_state: "consistent (initial_state saved_conv saved_ids)"
  by (simp add: consistent_def initial_state_def store_keys_def)

lemma update_total:
  assumes "consistent s"
  shows "\<exists>ops s'. updateCurrentConversation conversation s = Inr (ops, s') \<and> consistent s'"
proof (cases conversation rule: live_cases)
  case awaiting
  then show ?thesis by (simp add: update_awaiting consistent_awaiting)
next
  case (live c msgs)
  obtain ops1 s2 where r: "render_all (start_state c s) msgs = Inr (ops1, s2)" "consistent s2"
    using render_all_total [OF consistent_start_state [OF assms]] by blast
  show ?thesis
    using update_live [OF live(1-3) r(1)] cleanup_consistent [OF r(2)] by simp
qed

lemma update_liveD:
  assumes "conversation = Some c" "messages c = Some msgs" "msgs \<noteq> []"
    "updateCurrentConversation conversation s = Inr (ops, s')"
  obtains ops1 s2 where "render_all (start_state c s) msgs = Inr (ops1, s2)"
    "s' = snd (cleanup msgs s2)"
    "ops = (if is_new_conversation s c then [ClearChildren] else []) @ ops1 @ fst (cleanup msgs s2)"
proof (cases "render_all (start_state c s) msgs")
  case (Inl e)
  then show ?thesis
    using assms by (cases msgs) (simp_all add: updateCurrentConversation_def Let_def)
next
  case (Inr p)
  then obtain ops1 s2 where r: "render_all (start_state c s) msgs = Inr (ops1, s2)"
    by (cases p) auto
  show ?thesis
    using update_live [OF assms(1-3) r] assms(4) that [OF r] by simp
qed

lemma start_state_no_reset:
  "conversation = Some c \<Longrightarrow> live_messages conversation \<noteq> [] \<Longrightarrow> \<not> resets conversation s \<Longrightarrow>
   start_state c s = s"
  by (simp add: resets_def start_state_def)

lemma start_state_reset:
  "conversation = Some c \<Longrightarrow> live_messages conversation \<noteq> [] \<Longrightarrow> resets conversation s \<Longrightarrow>
   start_state c s = reset c s"
  by (simp add: resets_def start_state_def)

lemma rendered_awaiting: "rendered (awaiting s) k = None"
  by (simp add: rendered_def awaiting_def)

lemma render_all_keys_mono:
  assumes "render_all s msgs = Inr (ops, s')"
  shows "set (store_keys s) \<subseteq> set (store_keys s')"
  using render_all_key_set [OF assms] by auto

lemma render_all_fresh:
  assumes "set (store_keys s) \<inter> set (map msgId msgs) = {}" "distinct (map msgId msgs)"
  shows "\<exists>ops. render_all s msgs =
           Inr (ops, s\<lparr> currentMessages := currentMessages s @ map (\<lambda>m. (msgId m, m)) msgs,
                       children := children s @ map (\<lambda>m. MsgDiv (new_node m)) msgs \<rparr>)"
  using assms
proof (induction msgs arbitrary: s)
  case Nil
  then show ?case by simp
next
  case (Cons m ms)
  let ?s1 = "s\<lparr> currentMessages := currentMessages s @ [(msgId m, m)],
                children := children s @ [MsgDiv (new_node m)] \<rparr>"
  have new: "msgId m \<notin> set (store_keys s)" using Cons.prems(1) by auto
  have r: "render_msg s m = Inr (AppendChild (msgId m) # scroll_ops s, ?s1)"
    using new by (rule render_msg_new)
  have "set (store_keys ?s1) \<inter> set (map msgId ms) = {}"
    using Cons.prems by (auto simp: store_keys_def)
  moreover have "distinct (map msgId ms)" using Cons.prems(2) by simp
  ultimately obtain ops where
    "render_all ?s1 ms =
       Inr (ops, ?s1\<lparr> currentMessages := currentMessages ?s1 @ map (\<lambda>m. (msgId m, m)) ms,
                     children := children ?s1 @ map (\<lambda>m. MsgDiv (new_node m)) ms \<rparr>)"
    using Cons.IH [of ?s1] by blast
  then show ?case using r by simp
qed

lemma render_msg_settled_noop:
  assumes "settled s msg"
  shows "render_msg s msg = Inr ([], s)"
proof -
  from assms obtain t where t: "rendered s (msgId msg) = Some t"
    "length (msg_text msg) < length t \<or> msg_text msg = t" and k: "msgId msg \<in> set (store_keys s)"
    by (auto simp: settled_def split: option.splits)
  then obtain n where n: "getElementById (msgId msg) (children s) = Some n" "msg_content n = t"
    by (auto simp: rendered_def)
  show ?thesis using render_msg_seen [OF k n(1)] n(2) t(2) by auto
qed

lemma render_all_settled_noop:
  assumes "\<And>m. m \<in> set msgs \<Longrightarrow> settled s m"
  shows "render_all s msgs = Inr ([], s)"
  using assms by (induction msgs) (simp_all add: render_msg_settled_noop)

lemma render_msg_settles:
  assumes "consistent s" "render_msg s msg = Inr (ops, s')"
  shows "settled s' msg"
proof (cases "msgId msg \<in> set (store_keys s)")
  case True
  then obtain n where "getElementById (msgId msg) (children s) = Some n"
    using consistent_lookup [OF assms(1)] by blast
  then have old: "rendered s (msgId msg) = Some (msg_content n)" by (simp add: rendered_def)
  have "msgId msg \<in> set (store_keys s')" using render_msg_keys [OF assms(2)] True by simp
  then show ?thesis
    using render_msg_rendered_seen [OF assms(2) True old]
    by (auto simp: settled_def)
next
  case False
  have "msgId msg \<in> set (store_keys s')" using render_msg_keys [OF assms(2)] False by simp
  then show ?thesis
    using render_msg_rendered_new [OF assms False] by (simp add: settled_def)
qed

lemma settled_cong:
  assumes "settled s msg" "set (store_keys s) \<subseteq> set (store_keys s')"
    "rendered s' (msgId msg) = rendered s (msgId msg)"
  shows "settled s' msg"
  using assms by (auto simp: settled_def)

lemma render_all_settles:
  assumes "consistent s" "distinct (map msgId msgs)" "render_all s msgs = Inr (ops, s')"
    "m \<in> set msgs"
  shows "settled s' m"
  using assms
proof (induction msgs arbitrary: s ops)
  case Nil
  then show ?case by simp
next
  case (Cons m0 ms)
  from Cons.prems(3) obtain ops1 s1 ops2 where
    r: "render_msg s m0 = Inr (ops1, s1)" "render_all s1 ms = Inr (ops2, s')"
    by (rule render_all_ConsD)
  have c1: "consistent s1" using render_msg_consistent [OF Cons.prems(1) r(1)] .
  show ?case
  proof (cases "m \<in> set ms")
    case True
    then show ?thesis using Cons.IH [OF c1 _ r(2)] Cons.prems(2) by simp
  next
    case False
    then have "m = m0" using Cons.prems(4) by simp
    have "settled s1 m0" using render_msg_settles [OF Cons.prems(1) r(1)] .
    moreover have "msgId m0 \<notin> set (map msgId ms)" using Cons.prems(2) by simp
    then have "rendered s' (msgId m0) = rendered s1 (msgId m0)"
      using render_all_rendered_other [OF r(2)] by blast
    moreover have "set (store_keys s1) \<subseteq> set (store_keys s')"
      using render_all_keys_mono [OF r(2)] .
    ultimately show ?thesis using \<open>m = m0\<close> settled_cong by blast
  qed
qed

lemma awaiting_idem: "awaiting (awaiting s) = awaiting s"
  by (simp add: awaiting_def)

section \<open>Facts about single nodes\<close>

lemma set_content_nth:
  "getElementById k es = Some n \<Longrightarrow>
   \<exists>i<length es. es ! i = MsgDiv n \<and> set_content k t es = es[i := MsgDiv (n\<lparr>msg_content := t\<rparr>)]"
proof (induction k es rule: getElementById.induct)
  case (1 k)
  then show ?case by simp
next
  case (2 k es)
  then obtain i where "i < length es" "es ! i = MsgDiv n"
    "set_content k t es = es[i := MsgDiv (n\<lparr>msg_content := t\<rparr>)]" by auto
  then show ?case by (intro exI [of _ "Suc i"]) simp
next
  case (3 k n0 es)
  show ?case
  proof (cases "node_id n0 = k")
    case True
    then have "n0 = n" using 3 by simp
    then show ?thesis using True by (intro exI [of _ 0]) simp
  next
    case False
    then obtain i where "i < length es" "es ! i = MsgDiv n"
      "set_content k t es = es[i := MsgDiv (n\<lparr>msg_content := t\<rparr>)]" using 3 by auto
    then show ?thesis using False by (intro exI [of _ "Suc i"]) simp
  qed
qed

lemma render_msg_node:
  assumes "render_msg s m = Inr (ops, s')" "getElementById k (children s) = Some n"
  shows "\<exists>n'. getElementById k (children s') = Some n' \<and> n' = n\<lparr>msg_content := msg_content n'\<rparr>
           \<and> length (msg_content n) \<le> length (msg_content n')
           \<and> (msg_content n' \<noteq> msg_content n \<longrightarrow> msgId m = k \<and> msg_text m = msg_content n')"
  using assms
  by (auto simp: render_msg_def Let_def getElementById_append getElementById_set_content
      split: if_splits option.splits)

lemma render_all_node:
  assumes "render_all s msgs = Inr (ops, s')" "getElementById k (children s) = Some n"
  shows "\<exists>n'. getElementById k (children s') = Some n' \<and> n' = n\<lparr>msg_content := msg_content n'\<rparr>
           \<and> length (msg_content n) \<le> length (msg_content n')
           \<and> (msg_content n' \<noteq> msg_content n \<longrightarrow>
                (\<exists>m\<in>set msgs. msgId m = k \<and> msg_text m = msg_content n'))"
  using assms
proof (induction msgs arbitrary: s ops n)
  case Nil
  then show ?case by simp
next
  case (Cons m0 ms)
  from Cons.prems(1) obtain ops1 s1 ops2 where
    r: "render_msg s m0 = Inr (ops1, s1)" "render_all s1 ms = Inr (ops2, s')"
    by (rule render_all_ConsD)
  obtain n1 where n1: "getElementById k (children s1) = Some n1"
    "n1 = n\<lparr>msg_content := msg_content n1\<rparr>" "length (msg_content n) \<le> length (msg_content n1)"
    "msg_content n1 \<noteq> msg_content n \<longrightarrow> msgId m0 = k \<and> msg_text m0 = msg_content n1"
    using render_msg_node [OF r(1) Cons.prems(2)] by blast
  obtain n' where n': "getElementById k (children s') = Some n'"
    "n' = n1\<lparr>msg_content := msg_content n'\<rparr>" "length (msg_content n1) \<le> length (msg_content n')"
    "msg_content n' \<noteq> msg_content n1 \<longrightarrow> (\<exists>m\<in>set ms. msgId m = k \<and> msg_text m = msg_content n')"
    using Cons.IH [OF r(2) n1(1)] by blast
  have "n' = n\<lparr>msg_content := msg_content n'\<rparr>"
    using n1(2) n'(2) by (metis node.update_convs(5) node.surjective node.simps(1-5))
  moreover have "length (msg_content n) \<le> length (msg_content n')" using n1(3) n'(3) by simp
  moreover have "\<exists>m\<in>set (m0 # ms). msgId m = k \<and> msg_text m = msg_content n'"
    if "msg_content n' \<noteq> msg_content n"
  proof (cases "msg_content n' = msg_content n1")
    case True
    then show ?thesis using that n1(4) by auto
  next
    case False
    then show ?thesis using n'(4) by auto
  qed
  ultimately show ?case using n'(1) by blast
qed

lemma cleanup_node:
  assumes "consistent s"
  shows "getElementById k (children (snd (cleanup msgs s))) =
           (if k \<in> set (map msgId msgs) then getElementById k (children s) else None)"
proof (cases "k \<in> set (map msgId msgs)")
  case True
  have "children (snd (cleanup msgs s)) = fold remove_elem (stale_keys msgs s) (children s)"
    using fold_remove_msg_fields [of "stale_keys msgs s" "([], s)"] by (simp add: cleanup_snd)
  moreover have "k \<notin> set (stale_keys msgs s)" using True by (simp add: stale_keys_def)
  ultimately show ?thesis
    using True by (simp add: getElementById_fold_remove_elem)
next
  case False
  have "k \<notin> set (node_ids (children (snd (cleanup msgs s))))"
    using False by (simp add: cleanup_node_ids [OF assms])
  then show ?thesis using False by (simp add: getElementById_None_iff)
qed

section \<open>The scenario messages\<close>

lemma msgId_scenario: "msgId (scenario_msg t) = ''OBSERVER-1000''"
  by (simp add: msgId_def scenario_msg_def number_string_def digits.simps)

lemma msg_text_scenario: "msg_text (scenario_msg t) = t"
  by (simp add: msg_text_def scenario_msg_def)

section \<open>The example states\<close>

lemma msgId_ego: "msgId ego_msg = ''EGO-2000''"
  by (simp add: msgId_def ego_msg_def number_string_def digits.simps)

lemma node_id_new_node: "node_id (new_node msg) = msgId msg"
  by (simp add: new_node_def)

lemma msg_content_new_node: "msg_content (new_node msg) = msg_text msg"
  by (simp add: new_node_def)

lemma consistent_hello_state: "consistent hello_state"
  by (simp add: consistent_def hello_state_def store_keys_def node_id_new_node msgId_scenario msgId_ego)

lemma rendered_hello_state: "rendered hello_state ''OBSERVER-1000'' = Some ''Hello''"
  by (simp add: rendered_def hello_state_def node_id_new_node msgId_scenario msg_content_new_node
      msg_text_scenario)

lemma hello_state_reached:
  "updateCurrentConversation
     (Some \<lparr> conv_id = Some ''c1'', messages = Some [scenario_msg ''Hello'', ego_msg] \<rparr>)
     (initial_state (Some ''c1'') (Some [''EGO-2000''])) =
   Inr ([AppendChild ''OBSERVER-1000'', ScrollToBottom, AppendChild ''EGO-2000'', ScrollToBottom],
        hello_state)"
  by (simp add: updateCurrentConversation_def start_state_def is_new_conversation_def
      initial_state_def render_msg_def msgId_scenario msgId_ego scroll_ops_def cleanup_def
      hello_state_def Let_def)

lemma hello_reset:
  "updateCurrentConversation (other_snapshot ''Hi'') hello_state =
   Inr ([ClearChildren, AppendChild ''OBSERVER-1000'', ScrollToBottom], reset_state)"
  by (simp add: updateCurrentConversation_def other_snapshot_def start_state_def
      is_new_conversation_def reset_def render_msg_def msgId_scenario scroll_ops_def cleanup_def
      hello_state_def reset_state_def Let_def)

lemma hello_collect:
  "updateCurrentConversation (scenario_snapshot ''Hello'') hello_state =
   Inr ([RemoveElem ''EGO-2000''], collected_state)"
  by (simp add: updateCurrentConversation_def scenario_snapshot_def start_state_def
      is_new_conversation_def render_msg_def msgId_scenario msgId_ego scroll_ops_def cleanup_def
      remove_msg_def node_id_new_node msg_content_new_node msg_text_scenario
      hello_state_def collected_state_def Let_def)

lemma hello_awaiting: "updateCurrentConversation None hello_state = Inr ([SetPlaceholder], awaiting hello_state)"
  by (simp add: updateCurrentConversation_def)

lemma awaiting_regrow:
  "updateCurrentConversation (scenario_snapshot ''Hi'') (awaiting hello_state) =
     Inr ([AppendChild ''OBSERVER-1000'', ScrollToBottom], regrown_state)"
  by (simp add: updateCurrentConversation_def scenario_snapshot_def start_state_def
      is_new_conversation_def render_msg_def msgId_scenario scroll_ops_def cleanup_def
      hello_state_def awaiting_def regrown_state_def Let_def)

lemma rendered_reset_state: "rendered reset_state ''OBSERVER-1000'' = Some ''Hi''"
  by (simp add: rendered_def reset_state_def node_id_new_node msgId_scenario msg_content_new_node
      msg_text_scenario)

lemma rendered_regrown_state: "rendered regrown_state ''OBSERVER-1000'' = Some ''Hi''"
  by (simp add: rendered_def regrown_state_def node_id_new_node msgId_scenario msg_content_new_node
      msg_text_scenario)

lemma live_scenario: "live_messages (scenario_snapshot t) = [scenario_msg t]"
  by (simp add: live_messages_def scenario_snapshot_def)

lemma no_reset_scenario: "\<not> resets (scenario_snapshot t) hello_state"
  by (simp add: resets_def scenario_snapshot_def is_new_conversation_def hello_state_def)

lemma resets_other: "resets (other_snapshot t) hello_state"
  by (simp add: resets_def other_snapshot_def is_new_conversation_def hello_state_def live_messages_def)

lemma msg_text_ego: "msg_text ego_msg = ''...''"
  by (simp add: msg_text_def ego_msg_def)

lemma hello_grow:
  "updateCurrentConversation (both_snapshot ''Hello there'') hello_state =
     Inr ([SetContent ''OBSERVER-1000'' ''Hello there'', ScrollToBottom], grown_state)"
  by (simp add: updateCurrentConversation_def both_snapshot_def start_state_def
      is_new_conversation_def render_msg_def msgId_scenario msgId_ego scroll_ops_def cleanup_def
      node_id_new_node msg_content_new_node msg_text_scenario msg_text_ego
      hello_state_def grown_state_def Let_def)

lemma no_reset_both: "\<not> resets (both_snapshot t) hello_state"
  by (simp add: resets_def both_snapshot_def is_new_conversation_def hello_state_def)

lemma lookup_hello_state:
  "getElementById ''OBSERVER-1000'' (children hello_state) = Some (new_node (scenario_msg ''Hello''))"
  by (simp add: hello_state_def node_id_new_node msgId_scenario)

lemma lookup_grown_state:
  "getElementById ''OBSERVER-1000'' (children grown_state) =
     Some ((new_node (scenario_msg ''Hello''))\<lparr>msg_content := ''Hello there''\<rparr>)"
  by (simp add: grown_state_def node_id_new_node msgId_scenario)

section \<open>Facts about the merge of one key\<close>

lemma merged_Nil: "merged k [] c = c"
  by (simp add: merged_def)

lemma merged_Cons: "merged k (m # ms) c = merged k ms (merge_msg k m c)"
  by (simp add: merged_def)

lemma merged_snoc: "merged k (ms @ [m]) c = merge_msg k m (merged k ms c)"
  by (simp add: merged_def)

lemma merged_absent: "k \<notin> set (map msgId ms) \<Longrightarrow> merged k ms c = c"
  by (induction ms arbitrary: c) (auto simp: merged_Cons merged_Nil merge_msg_def)

lemma merged_None: "merged k ms c = None \<Longrightarrow> k \<notin> set (map msgId ms)"
proof (induction ms rule: rev_induct)
  case Nil
  then show ?case by simp
next
  case (snoc m ms)
  then show ?case
    by (auto simp: merged_snoc merge_msg_def split: if_splits option.splits)
qed

lemma merged_bound:
  "merged k ms c = Some x \<Longrightarrow> m \<in> set ms \<Longrightarrow> msgId m = k \<Longrightarrow> length (msg_text m) \<le> length x"
proof (induction ms arbitrary: x rule: rev_induct)
  case Nil
  then show ?case by simp
next
  case (snoc m0 ms)
  show ?case
  proof (cases "msgId m0 = k")
    case False
    then show ?thesis using snoc by (auto simp: merged_snoc merge_msg_def)
  next
    case True
    show ?thesis
    proof (cases "merged k ms c")
      case None
      then have "k \<notin> set (map msgId ms)" by (rule merged_None)
      then have "m = m0" using snoc.prems by auto
      then show ?thesis using snoc.prems(1) None True by (simp add: merged_snoc merge_msg_def)
    next
      case (Some y)
      have x: "x = merge_text y (msg_text m0)"
        using snoc.prems(1) Some True by (simp add: merged_snoc merge_msg_def)
      then have ge: "length y \<le> length x" "length (msg_text m0) \<le> length x"
        by (auto simp: merge_text_def)
      show ?thesis
      proof (cases "m = m0")
        case True
        then show ?thesis using ge by simp
      next
        case False
        then have "m \<in> set ms" using snoc.prems(2) by simp
        then have "length (msg_text m) \<le> length y" using snoc.IH [OF Some _ snoc.prems(3)] by simp
        then show ?thesis using ge by simp
      qed
    qed
  qed
qed

lemma merged_saturated:
  assumes "\<And>m. m \<in> set ms \<Longrightarrow> msgId m = k \<Longrightarrow> length (msg_text m) \<le> length t"
  shows "\<exists>z. merged k ms (Some t) = Some z \<and> length z = length t"
  using assms
proof (induction ms arbitrary: t)
  case Nil
  then show ?case by (simp add: merged_Nil)
next
  case (Cons m ms)
  show ?case
  proof (cases "msgId m = k")
    case False
    then have "merge_msg k m (Some t) = Some t" by (simp add: merge_msg_def)
    then show ?thesis using Cons.IH [of t] Cons.prems by (simp add: merged_Cons)
  next
    case True
    then have le: "length (msg_text m) \<le> length t" using Cons.prems by simp
    let ?t' = "merge_text t (msg_text m)"
    have l: "length ?t' = length t" using le by (auto simp: merge_text_def)
    have "merge_msg k m (Some t) = Some ?t'" using True by (simp add: merge_msg_def)
    moreover have "\<exists>z. merged k ms (Some ?t') = Some z \<and> length z = length ?t'"
      using Cons.IH [of ?t'] Cons.prems l by simp
    ultimately show ?thesis using l by (simp add: merged_Cons)
  qed
qed

lemma merged_idem: "merged k ms (merged k ms c) = merged k ms c"
proof (induction ms rule: rev_induct)
  case Nil
  then show ?case by (simp add: merged_Nil)
next
  case (snoc m ms)
  let ?c' = "merged k ms c"
  show ?case
  proof (cases "msgId m = k")
    case False
    then show ?thesis using snoc by (simp add: merged_snoc merge_msg_def)
  next
    case True
    let ?t = "msg_text m"
    show ?thesis
    proof (cases ?c')
      case None
      then have "k \<notin> set (map msgId ms)" by (rule merged_None)
      then have "merged k ms (Some ?t) = Some ?t" by (rule merged_absent)
      then show ?thesis using None True
        by (simp add: merged_snoc merge_msg_def merge_text_def)
    next
      case (Some x)
      show ?thesis
      proof (cases "length ?t \<ge> length x \<and> ?t \<noteq> x")
        case False
        then have "merge_msg k m ?c' = Some x" using Some True
          by (auto simp: merge_msg_def merge_text_def)
        moreover have "merged k ms (Some x) = Some x" using snoc Some by simp
        ultimately show ?thesis using Some by (simp add: merged_snoc)
      next
        case yes: True
        then have y: "merge_msg k m ?c' = Some ?t" using Some True
          by (auto simp: merge_msg_def merge_text_def)
        have "\<And>m'. m' \<in> set ms \<Longrightarrow> msgId m' = k \<Longrightarrow> length (msg_text m') \<le> length ?t"
          using merged_bound [OF Some] yes by fastforce
        then obtain z where z: "merged k ms (Some ?t) = Some z" "length z = length ?t"
          using merged_saturated [of ms k ?t] by blast
        have "merge_msg k m (Some z) = Some ?t" using True z(2)
          by (auto simp: merge_msg_def merge_text_def)
        then show ?thesis using y z(1) by (simp add: merged_snoc)
      qed
    qed
  qed
qed

lemma render_msg_merge:
  assumes "consistent s" "render_msg s m = Inr (ops, s')"
  shows "rendered s' k = merge_msg k m (rendered s k)"
proof (cases "k = msgId m")
  case False
  then show ?thesis using render_msg_rendered_other [OF assms(2), of k] by (simp add: merge_msg_def)
next
  case k: True
  show ?thesis
  proof (cases "msgId m \<in> set (store_keys s)")
    case True
    then obtain n where "getElementById (msgId m) (children s) = Some n"
      using consistent_lookup [OF assms(1)] by blast
    then have old: "rendered s (msgId m) = Some (msg_content n)" by (simp add: rendered_def)
    show ?thesis
      using render_msg_rendered_seen [OF assms(2) True old] old k
      by (simp add: merge_msg_def merge_text_def)
  next
    case False
    then have "rendered s (msgId m) = None"
      using consistentD(1) [OF assms(1)] by (simp add: rendered_None_iff)
    then show ?thesis
      using render_msg_rendered_new [OF assms False] k by (simp add: merge_msg_def)
  qed
qed

lemma render_all_merge:
  assumes "consistent s" "render_all s msgs = Inr (ops, s')"
  shows "rendered s' k = merged k msgs (rendered s k)"
  using assms
proof (induction msgs arbitrary: s ops)
  case Nil
  then show ?case by (simp add: merged_Nil)
next
  case (Cons m ms)
  from Cons.prems(2) obtain ops1 s1 ops2 where
    r: "render_msg s m = Inr (ops1, s1)" "render_all s1 ms = Inr (ops2, s')"
    by (rule render_all_ConsD)
  have c1: "consistent s1" using render_msg_consistent [OF Cons.prems(1) r(1)] .
  show ?case
    using Cons.IH [OF c1 r(2)] render_msg_merge [OF Cons.prems(1) r(1), of k]
    by (simp add: merged_Cons)
qed

lemma same_header_refl: "list_all2 same_header es es"
proof (induction es)
  case Nil
  then show ?case by simp
next
  case (Cons e es)
  then show ?case by (cases e) simp_all
qed

lemma same_header_trans:
  "same_header e e' \<Longrightarrow> same_header e' e'' \<Longrightarrow> same_header e e''"
  by (cases e; cases e'; cases e'') auto

lemma same_header_list_trans:
  "list_all2 same_header es es' \<Longrightarrow> list_all2 same_header es' es'' \<Longrightarrow>
   list_all2 same_header es es''"
  by (rule list_all2_trans [where ?P1.0 = same_header and ?P2.0 = same_header])
    (auto intro: same_header_trans)

lemma same_header_set_content: "list_all2 same_header es (set_content k t es)"
  by (induction k t es rule: set_content.induct) (simp_all add: same_header_refl)

lemma same_header_node_ids: "list_all2 same_header es es' \<Longrightarrow> node_ids es' = node_ids es"
proof (induction es es' rule: list_all2_induct)
  case Nil
  then show ?case by simp
next
  case (Cons e es e' es')
  then show ?case
    by (cases e; cases e') auto
qed

lemma same_header_eq:
  assumes "list_all2 same_header es es'" "distinct (node_ids es)"
    "\<And>k. map_option msg_content (getElementById k es') = map_option msg_content (getElementById k es)"
  shows "es' = es"
  using assms
proof (induction es es' rule: list_all2_induct)
  case Nil
  then show ?case by simp
next
  case (Cons e es e' es')
  show ?case
  proof (cases e)
    case LoadingAscii
    then have e': "e' = LoadingAscii" using Cons.hyps(1) by (cases e') simp_all
    have "es' = es"
      using Cons.IH Cons.prems LoadingAscii e' by simp
    then show ?thesis using LoadingAscii e' by simp
  next
    case (MsgDiv n)
    then obtain n' where e': "e' = MsgDiv n'" and h: "node_id n' = node_id n"
      "class_name n' = class_name n" "msg_agent n' = msg_agent n" "msg_time n' = msg_time n"
      using Cons.hyps(1) by (cases e') simp_all
    note id = h(1)
    have "msg_content n' = msg_content n"
      using Cons.prems(2) [of "node_id n"] MsgDiv e' id by simp
    then have n: "n' = n" using h by simp
    have ids: "node_ids es' = node_ids es" using same_header_node_ids [OF Cons.hyps(2)] .
    have d: "distinct (node_ids es)" "node_id n \<notin> set (node_ids es)"
      using Cons.prems(1) MsgDiv by simp_all
    have "map_option msg_content (getElementById k es') = map_option msg_content (getElementById k es)" for k
    proof (cases "k = node_id n")
      case True
      then have "getElementById k es = None" "getElementById k es' = None"
        using d(2) ids by (simp_all add: getElementById_None_iff)
      then show ?thesis by simp
    next
      case False
      then show ?thesis using Cons.prems(2) [of k] MsgDiv e' n by simp
    qed
    then have "es' = es" using Cons.IH d(1) by simp
    then show ?thesis using MsgDiv e' n by simp
  qed
qed

lemma render_msg_seen_shape:
  assumes "render_msg s m = Inr (ops, s')" "msgId m \<in> set (store_keys s)"
  shows "s' = s\<lparr>children := children s'\<rparr> \<and> list_all2 same_header (children s) (children s')
       \<and> (\<forall>k. AppendChild k \<notin> set ops \<and> RemoveElem k \<notin> set ops)"
  using assms
  by (auto simp: render_msg_def Let_def store_keys_set scroll_ops_def same_header_set_content
      same_header_refl split: if_splits option.splits)

lemma render_all_seen_shape:
  assumes "render_all s msgs = Inr (ops, s')" "set (map msgId msgs) \<subseteq> set (store_keys s)"
  shows "s' = s\<lparr>children := children s'\<rparr> \<and> list_all2 same_header (children s) (children s')
       \<and> (\<forall>k. AppendChild k \<notin> set ops \<and> RemoveElem k \<notin> set ops)"
  using assms
proof (induction msgs arbitrary: s ops)
  case Nil
  then show ?case by (simp add: same_header_refl)
next
  case (Cons m ms)
  from Cons.prems(1) obtain ops1 s1 ops2 where
    r: "render_msg s m = Inr (ops1, s1)" "render_all s1 ms = Inr (ops2, s')" "ops = ops1 @ ops2"
    by (rule render_all_ConsD)
  have k: "msgId m \<in> set (store_keys s)" using Cons.prems(2) by simp
  note a = render_msg_seen_shape [OF r(1) k]
  have "store_keys s1 = store_keys s" using render_msg_keys [OF r(1)] k by simp
  then have "set (map msgId ms) \<subseteq> set (store_keys s1)" using Cons.prems(2) by simp
  note b = Cons.IH [OF r(2) this]
  have "s' = s\<lparr>children := children s'\<rparr>"
    using a b by (metis state.update_convs(2) state.surjective state.simps)
  moreover have "list_all2 same_header (children s) (children s')"
    using a b same_header_list_trans by blast
  ultimately show ?case using a b r(3) by auto
qed

section \<open>Facts about the effects\<close>

lemma length_shift_row: "length (shift_row k l) = max (length l) (nat \<bar>k\<bar>)"
  by (auto simp: shift_row_def)

lemma length_shift_row2: "length (shift_row2 k l) = max (length l) (nat \<bar>k\<bar>)"
  by (auto simp: shift_row2_def)

lemma thread_length: "length (fst (thread f i xs)) = length xs"
  by (induction xs arbitrary: i) (auto simp: split_beta)

lemma thread_all:
  assumes "\<And>i x. x \<in> set xs \<Longrightarrow> P (fst (f i x))"
  shows "list_all P (fst (thread f i xs))"
  using assms by (induction xs arbitrary: i) (auto simp: split_beta)

lemma length_corrupt: "length (fst (corrupt r i l)) = length l"
  by (induction r i l rule: corrupt.induct) (auto simp: split_beta)

lemma length_matrix_row: "length (fst (matrix_row r i l)) = length l"
  by (induction r i l rule: matrix_row.induct) (auto simp: split_beta)

lemma length_drop_rows: "length (fst (drop_rows r sc i ls)) \<le> length ls"
  by (induction r sc i ls rule: drop_rows.induct) (auto simp: split_beta)

lemma wave_offset_bounds: "- 4 \<le> wave_offset y frame \<and> wave_offset y frame \<le> 4"
proof -
  let ?x = "sin (real y * 0.2 + real frame * 0.2)"
  have "- 4 \<le> ?x * 4" "?x * 4 \<le> 4" using sin_ge_minus_one [of "real y * 0.2 + real frame * 0.2"]
      sin_le_one [of "real y * 0.2 + real frame * 0.2"] by linarith+
  then have "- 4 \<le> ?x * 4" "?x * 4 < 5" by linarith+
  then have "- 4 \<le> \<lfloor>?x * 4\<rfloor>" "\<lfloor>?x * 4\<rfloor> < 5"
    by (simp_all only: le_floor_iff floor_less_iff of_int_minus of_int_numeral)
  then show ?thesis unfolding wave_offset_def by simp
qed

lemma glitch_offset_bounds:
  assumes "0 \<le> x" "x < 1"
  shows "- 5 \<le> \<lfloor>x * 11\<rfloor> - 5 \<and> \<lfloor>x * 11\<rfloor> - 5 \<le> 5"
proof -
  have "0 \<le> \<lfloor>x * 11\<rfloor>" using assms by simp
  moreover have "\<lfloor>x * 11\<rfloor> < 11" using assms by (simp add: floor_less_iff)
  ultimately show ?thesis by simp
qed

lemma gridD:
  assumes "grid a"
  shows "length (lines a) = height a" "l \<in> set (lines a) \<Longrightarrow> length l = width a"
  using assms by (auto simp: grid_def list_all_iff)

lemma fold_max_ge: "m \<le> fold max xs m \<and> (\<forall>x\<in>set xs. x \<le> fold max xs (m::nat))"
proof (induction xs arbitrary: m)
  case Nil
  then show ?case by simp
next
  case (Cons x xs)
  have "max x m \<le> fold max xs (max x m)" "\<forall>y\<in>set xs. y \<le> fold max xs (max x m)"
    using Cons.IH [of "max x m"] by auto
  then show ?case by auto
qed

lemma max_length_ge: "l \<in> set ls \<Longrightarrow> length l \<le> max_length ls"
  using fold_max_ge [of 0 "map length ls"] by (auto simp: max_length_def)

lemma length_padEnd: "length l \<le> w \<Longrightarrow> length (padEnd w l) = w"
  by (simp add: padEnd_def)

lemma grid_ASCIIAnimator: "grid (ASCIIAnimator asciiArt)"
  by (auto simp: grid_def ASCIIAnimator_def Let_def list_all_iff length_padEnd max_length_ge)

lemma length_waveEffect: "length (waveEffect a frame) = length (lines a)"
  by (simp add: waveEffect_def)

lemma wave_rows:
  assumes "grid a" "4 \<le> width a"
  shows "list_all (\<lambda>l. length l = width a) (waveEffect a frame)"
proof -
  have "length (shift_row (wave_offset y frame) (lines a ! y)) = width a" if "y < length (lines a)" for y
  proof -
    have "length (lines a ! y) = width a" using gridD(2) [OF assms(1)] that by simp
    moreover have "nat \<bar>wave_offset y frame\<bar> \<le> 4" using wave_offset_bounds [of y frame] by auto
    ultimately show ?thesis using assms(2) by (simp add: length_shift_row)
  qed
  then show ?thesis by (simp add: waveEffect_def list_all_iff)
qed

lemma length_glitchEffect: "length (fst (glitchEffect a frame r i)) = length (lines a)"
  by (simp add: glitchEffect_def thread_length)

lemma glitch_rows:
  assumes "grid a" "admissible r" "5 \<le> width a"
  shows "list_all (\<lambda>l. length l = width a) (fst (glitchEffect a frame r i))"
  unfolding glitchEffect_def
proof (rule thread_all)
  fix j l assume l: "l \<in> set (lines a)"
  have w: "length l = width a" using gridD(2) [OF assms(1) l] .
  have "0 \<le> r (j + 2)" "r (j + 2) < 1" using assms(2) by (auto simp: admissible_def)
  then have "- 5 \<le> \<lfloor>r (j + 2) * 11\<rfloor> - 5 \<and> \<lfloor>r (j + 2) * 11\<rfloor> - 5 \<le> 5"
    by (rule glitch_offset_bounds)
  then have "nat \<bar>\<lfloor>r (j + 2) * 11\<rfloor> - 5\<bar> \<le> 5" by linarith
  then show "length (fst (glitch_row r (r i) j l)) = width a"
    using w assms(3) by (simp add: glitch_row_def length_shift_row2 length_corrupt)
qed

lemma length_matrixEffect: "length (fst (matrixEffect a frame r i)) = length (lines a)"
  by (simp add: matrixEffect_def thread_length)

lemma matrix_rows:
  assumes "grid a"
  shows "list_all (\<lambda>l. length l = width a) (fst (matrixEffect a frame r i))"
  unfolding matrixEffect_def
  by (rule thread_all) (simp add: length_matrix_row gridD(2) [OF assms])

lemma length_blinkEffect: "length (blinkEffect a frame) = length (lines a)"
  by (simp add: blinkEffect_def Let_def)

lemma blink_rows:
  assumes "grid a"
  shows "list_all (\<lambda>l. length l = width a) (blinkEffect a frame)"
  using gridD(2) [OF assms] by (simp add: blinkEffect_def Let_def list_all_iff)

lemma length_bounceEffect: "length (bounceEffect a frame) \<le> height a"
  by (simp add: bounceEffect_def)

lemma length_shakeEffect: "length (fst (shakeEffect a frame r i)) \<le> height a"
  by (simp add: shakeEffect_def Let_def)

lemma length_danceEffect:
  assumes "grid a"
  shows "length (fst (danceEffect a frame r i)) \<le> height a"
  using gridD(1) [OF assms]
  by (simp add: danceEffect_def Let_def length_bounceEffect length_waveEffect length_shakeEffect)

lemma length_pulseEffect:
  "length (fst (pulseEffect a frame r i)) =
     (if pulse_scale frame > 1 then emptyLines a frame + length (lines a)
      else length (fst (drop_rows r (pulse_scale frame) i (lines a))))"
  by (simp add: pulseEffect_def Let_def split_beta thread_length)

lemma sin_one_ge_half: "1 / 2 \<le> sin (1::real)"
proof -
  have "pi / 6 \<le> 1" using pi_less_4 by simp
  moreover have "1 \<le> pi / 2" using pi_ge_two by simp
  moreover have "- (pi / 2) \<le> pi / 6" using pi_ge_zero by linarith
  ultimately have "sin (pi / 6) \<le> sin 1" by (rule sin_monotone_2pi_le [rotated])
  then show ?thesis by (simp add: sin_30)
qed

lemma admissible_zero_draws: "admissible zero_draws"
  by (simp add: admissible_def zero_draws_def)

lemma admissible_high_draws: "admissible high_draws"
  by (simp add: admissible_def high_draws_def)

lemma tall_animator_fields:
  "lines tall_animator = replicate 40 ''#''" "height tall_animator = 40" "width tall_animator = 1"
  unfolding tall_animator_def tall_art_def by code_simp+

lemma box_animator_fields:
  "lines box_animator = [''+---+'', ''|o o|'', ''+---+'']" "height box_animator = 3"
  "width box_animator = 5"
  unfolding box_animator_def box_art_def by code_simp+

lemma grid_tall_animator: "grid tall_animator"
  unfolding tall_animator_def by (rule grid_ASCIIAnimator)

lemma grid_box_animator: "grid box_animator"
  unfolding box_animator_def by (rule grid_ASCIIAnimator)

lemma pulse_scale_10: "pulse_scale 10 = 1 + sin 1 / 10"
  by (simp add: pulse_scale_def)

lemma emptyLines_tall: "1 \<le> emptyLines tall_animator 10"
proof -
  have "(1::real) \<le> 2 * sin 1" using sin_one_ge_half by simp
  then have "1 \<le> \<lfloor>2 * sin (1::real)\<rfloor>" by (simp only: le_floor_iff of_int_1)
  then have "1 \<le> nat \<lfloor>2 * sin (1::real)\<rfloor>" by linarith
  moreover have "emptyLines tall_animator 10 = nat \<lfloor>2 * sin (1::real)\<rfloor>"
    by (simp add: emptyLines_def pulse_scale_10 tall_animator_fields)
  ultimately show ?thesis by (simp only:)
qed

lemma wave_offset_0_5: "2 \<le> wave_offset 0 5"
proof -
  have "(2::real) \<le> sin 1 * 4" using sin_one_ge_half by simp
  then have "2 \<le> \<lfloor>sin (1::real) * 4\<rfloor>" by (simp only: le_floor_iff of_int_numeral)
  moreover have "wave_offset 0 5 = \<lfloor>sin (1::real) * 4\<rfloor>" by (simp add: wave_offset_def)
  ultimately show ?thesis by (simp only:)
qed

lemma shakeX_iff: "shakeX x = k \<longleftrightarrow> (of_int k + 2) / 5 \<le> x \<and> x < (of_int k + 3) / 5"
proof -
  have "shakeX x = k \<longleftrightarrow> \<lfloor>x * 5\<rfloor> = k + 2" by (auto simp: shakeX_def)
  also have "\<dots> \<longleftrightarrow> of_int (k + 2) \<le> x * 5 \<and> x * 5 < of_int (k + 2) + 1"
    by (rule floor_eq_iff)
  also have "\<dots> \<longleftrightarrow> (of_int k + 2) / 5 \<le> x \<and> x < (of_int k + 3) / 5"
    by (auto simp: field_simps)
  finally show ?thesis .
qed

lemma shakeY_iff: "shakeY x = k \<longleftrightarrow> (of_int k + 1) / 3 \<le> x \<and> x < (of_int k + 2) / 3"
proof -
  have "shakeY x = k \<longleftrightarrow> \<lfloor>x * 3\<rfloor> = k + 1" by (auto simp: shakeY_def)
  also have "\<dots> \<longleftrightarrow> of_int (k + 1) \<le> x * 3 \<and> x * 3 < of_int (k + 1) + 1"
    by (rule floor_eq_iff)
  also have "\<dots> \<longleftrightarrow> (of_int k + 1) / 3 \<le> x \<and> x < (of_int k + 2) / 3"
    by (auto simp: field_simps)
  finally show ?thesis .
qed

lemma shake_ranges:
  assumes "0 \<le> x" "x < 1"
  shows "shakeX x \<in> {- 2..2}" "shakeY x \<in> {- 1..1}"
proof -
  have "0 \<le> x * 5" "x * 5 < 5" "0 \<le> x * 3" "x * 3 < 3" using assms by simp_all
  then have "0 \<le> \<lfloor>x * 5\<rfloor>" "\<lfloor>x * 5\<rfloor> < 5" "0 \<le> \<lfloor>x * 3\<rfloor>" "\<lfloor>x * 3\<rfloor> < 3"
    by (simp_all only: zero_le_floor floor_less_iff of_int_numeral)
  then have "- 2 \<le> shakeX x \<and> shakeX x \<le> 2" "- 1 \<le> shakeY x \<and> shakeY x \<le> 1"
    unfolding shakeX_def shakeY_def by linarith+
  then show "shakeX x \<in> {- 2..2}" "shakeY x \<in> {- 1..1}"
    by simp_all
qed

section \<open>C1: per-key monotonic growth\<close>

text \<open>
  C1, as stated, fails. In \<open>hello_state\<close> the key \<^verbatim>\<open>OBSERVER-1000\<close> is rendered with the text
  \<^verbatim>\<open>Hello\<close>. A snapshot of another conversation (\<^verbatim>\<open>c2\<close>) with the same key and the content
  \<^verbatim>\<open>Hi\<close> resets the store (lines 533 to 545) and renders the key anew with \<^verbatim>\<open>Hi\<close>: the
  length goes from 5 to 2 in one call. Within one conversation the same happens over two
  calls: an absent conversation clears the store (lines 522 to 530), and the next snapshot of
  \<^verbatim>\<open>c1\<close> renders the key with \<^verbatim>\<open>Hi\<close>.
\<close>

theorem monotonic_growth_counterexample:
  "rendered hello_state ''OBSERVER-1000'' = Some ''Hello''
   \<and> updateCurrentConversation (other_snapshot ''Hi'') hello_state =
       Inr ([ClearChildren, AppendChild ''OBSERVER-1000'', ScrollToBottom], reset_state)
   \<and> rendered reset_state ''OBSERVER-1000'' = Some ''Hi''
   \<and> updateCurrentConversation None hello_state = Inr ([SetPlaceholder], awaiting hello_state)
   \<and> updateCurrentConversation (scenario_snapshot ''Hi'') (awaiting hello_state) =
       Inr ([AppendChild ''OBSERVER-1000'', ScrollToBottom], regrown_state)
   \<and> rendered regrown_state ''OBSERVER-1000'' = Some ''Hi''
   \<and> length ''Hi'' < length ''Hello''"
  by (simp add: rendered_hello_state hello_reset rendered_reset_state hello_awaiting
      awaiting_regrow rendered_regrown_state)

text \<open>
  C1, amended: a call on a consistent state that does not reset returns, and every key
  rendered both before and after it has a rendered content at least as long after as before.
  When a message arrives whose key is in the store, the rendered content of the key becomes
  the new content if that is at least as long as the old one and differs from it, and stays
  the old content otherwise.
\<close>

theorem monotonic_growth:
  assumes "consistent s" "\<not> resets conversation s"
  shows "(\<exists>ops s'. updateCurrentConversation conversation s = Inr (ops, s')
            \<and> (\<forall>k t t'. rendered s k = Some t \<and> rendered s' k = Some t' \<longrightarrow> length t \<le> length t'))
       \<and> (render_msg s0 msg = Inr (ops0, s1) \<and> msgId msg \<in> set (store_keys s0)
            \<and> rendered s0 (msgId msg) = Some old \<longrightarrow>
          rendered s1 (msgId msg) =
            Some (if length (msg_text msg) \<ge> length old \<and> msg_text msg \<noteq> old
                  then msg_text msg else old))"
proof
  show "\<exists>ops s'. updateCurrentConversation conversation s = Inr (ops, s')
            \<and> (\<forall>k t t'. rendered s k = Some t \<and> rendered s' k = Some t' \<longrightarrow> length t \<le> length t')"
  proof (cases conversation rule: live_cases)
    case awaiting
    then show ?thesis by (simp add: update_awaiting rendered_awaiting)
  next
    case (live c msgs)
    have st: "start_state c s = s"
      using start_state_no_reset [OF live(1) _ assms(2)] live(3,4) by simp
    obtain ops1 s2 where r: "render_all s msgs = Inr (ops1, s2)" and c2: "consistent s2"
      using render_all_total [OF assms(1)] by blast
    let ?s3 = "snd (cleanup msgs s2)"
    have u: "updateCurrentConversation conversation s =
        Inr ((if is_new_conversation s c then [ClearChildren] else []) @ ops1 @ fst (cleanup msgs s2), ?s3)"
      using update_live [OF live(1-3)] r st by simp
    have "length t \<le> length t'" if a: "rendered s k = Some t" and b: "rendered ?s3 k = Some t'" for k t t'
    proof -
      obtain t2 where t2: "rendered s2 k = Some t2" "length t \<le> length t2"
        using render_all_monotone [OF r a] by blast
      have "rendered ?s3 k = (if k \<in> set (map msgId msgs) then rendered s2 k else None)"
        using cleanup_rendered [OF c2] .
      then have "t' = t2" using b t2(1) by (simp split: if_splits)
      then show ?thesis using t2(2) by simp
    qed
    then show ?thesis using u by blast
  qed
next
  show "render_msg s0 msg = Inr (ops0, s1) \<and> msgId msg \<in> set (store_keys s0)
            \<and> rendered s0 (msgId msg) = Some old \<longrightarrow>
          rendered s1 (msgId msg) =
            Some (if length (msg_text msg) \<ge> length old \<and> msg_text msg \<noteq> old
                  then msg_text msg else old)"
    using render_msg_rendered_seen by blast
qed

text \<open>
  The theorem at \<open>hello_state\<close> and the snapshot of \<^verbatim>\<open>c1\<close> with the content \<^verbatim>\<open>Hello there\<close>.
\<close>

theorem monotonic_growth_witness:
  "consistent hello_state
   \<and> \<not> resets (scenario_snapshot ''Hello there'') hello_state
   \<and> rendered hello_state ''OBSERVER-1000'' = Some ''Hello''
   \<and> (\<exists>ops s'. updateCurrentConversation (scenario_snapshot ''Hello there'') hello_state = Inr (ops, s')
        \<and> (\<forall>k t t'. rendered hello_state k = Some t \<and> rendered s' k = Some t' \<longrightarrow>
              length t \<le> length t'))"
  using monotonic_growth [OF consistent_hello_state no_reset_scenario, of "''Hello there''"]
    consistent_hello_state no_reset_scenario rendered_hello_state
  by blast

section \<open>C2: reset correctness\<close>

text \<open>
  C2, as stated, fails. The snapshot \<^verbatim>\<open>{id: "c2", messages: []}\<close> has an id that differs from
  the remembered \<^verbatim>\<open>c1\<close>, but the guard of line 522 returns before the test of line 533: the
  remembered id stays \<^verbatim>\<open>c1\<close> and nothing is written to local storage.
\<close>

theorem reset_correctness_counterexample:
  "is_new_conversation hello_state \<lparr> conv_id = Some ''c2'', messages = Some [] \<rparr>
   \<and> updateCurrentConversation (Some \<lparr> conv_id = Some ''c2'', messages = Some [] \<rparr>) hello_state =
       Inr ([SetPlaceholder], awaiting hello_state)
   \<and> currentConversationId (awaiting hello_state) = Some ''c1''
   \<and> stored_conversation (awaiting hello_state) = Some ''c1''
   \<and> stored_processed (awaiting hello_state) = Some [''EGO-2000'']"
  by (simp add: updateCurrentConversation_def is_new_conversation_def hello_state_def awaiting_def)

text \<open>
  C2, amended: when the snapshot's conversation has at least one message, and an id that is
  not empty and differs from the remembered one (\<open>is_new_conversation\<close>, which holds also
  when no id is remembered), and the keys of its messages are pairwise distinct, the call
  returns after a full reset: the store holds exactly the incoming messages in snapshot
  order, the page exactly their new nodes, the processed-id set is empty in memory and in
  local storage, the id of the snapshot is remembered and stored, and the size of the store is
  the number of incoming messages. Nothing is assumed of the state before the call.
\<close>

theorem reset_correctness:
  assumes "conversation = Some c" "messages c = Some msgs" "msgs \<noteq> []"
    "is_new_conversation s c" "distinct (map msgId msgs)"
  shows "\<exists>ops s'. updateCurrentConversation conversation s = Inr (ClearChildren # ops, s')
     \<and> currentMessages s' = map (\<lambda>m. (msgId m, m)) msgs
     \<and> children s' = map (\<lambda>m. MsgDiv (new_node m)) msgs
     \<and> processedMessageIds s' = {}
     \<and> stored_processed s' = Some []
     \<and> currentConversationId s' = conv_id c
     \<and> stored_conversation s' = conv_id c
     \<and> length (currentMessages s') = length msgs"
proof -
  let ?s1 = "start_state c s"
  have s1: "?s1 = reset c s" using assms(4) by (simp add: start_state_def)
  have "set (store_keys ?s1) \<inter> set (map msgId msgs) = {}"
    by (simp add: s1 reset_def store_keys_def)
  then obtain ops1 where r: "render_all ?s1 msgs =
      Inr (ops1, ?s1\<lparr> currentMessages := currentMessages ?s1 @ map (\<lambda>m. (msgId m, m)) msgs,
                     children := children ?s1 @ map (\<lambda>m. MsgDiv (new_node m)) msgs \<rparr>)"
    using render_all_fresh [OF _ assms(5)] by blast
  let ?s2 = "?s1\<lparr> currentMessages := currentMessages ?s1 @ map (\<lambda>m. (msgId m, m)) msgs,
                     children := children ?s1 @ map (\<lambda>m. MsgDiv (new_node m)) msgs \<rparr>"
  have "set (store_keys ?s2) \<subseteq> set (map msgId msgs)"
    by (auto simp: s1 reset_def store_keys_def)
  then have cl: "cleanup msgs ?s2 = ([], ?s2)" by (rule cleanup_nothing)
  have "updateCurrentConversation conversation s = Inr (ClearChildren # ops1, ?s2)"
    using update_live [OF assms(1-3) r] cl assms(4) by simp
  then show ?thesis
    by (simp add: s1 reset_def)
qed

text \<open>
  The theorem at \<open>hello_state\<close>, which holds two messages of \<^verbatim>\<open>c1\<close>, and a snapshot of \<^verbatim>\<open>c2\<close> with
  two messages.
\<close>

theorem reset_correctness_witness:
  "is_new_conversation hello_state
     \<lparr> conv_id = Some ''c2'', messages = Some [scenario_msg ''Hi'', ego_msg] \<rparr>
   \<and> distinct (map msgId [scenario_msg ''Hi'', ego_msg])
   \<and> length (currentMessages hello_state) = 2
   \<and> (\<exists>ops s'. updateCurrentConversation
          (Some \<lparr> conv_id = Some ''c2'', messages = Some [scenario_msg ''Hi'', ego_msg] \<rparr>)
          hello_state = Inr (ClearChildren # ops, s')
        \<and> currentMessages s' = [(''OBSERVER-1000'', scenario_msg ''Hi''), (''EGO-2000'', ego_msg)]
        \<and> children s' = [MsgDiv (new_node (scenario_msg ''Hi'')), MsgDiv (new_node ego_msg)]
        \<and> processedMessageIds s' = {}
        \<and> stored_processed s' = Some []
        \<and> currentConversationId s' = Some ''c2''
        \<and> stored_conversation s' = Some ''c2''
        \<and> length (currentMessages s') = 2)"
proof -
  let ?c = "\<lparr> conv_id = Some ''c2'', messages = Some [scenario_msg ''Hi'', ego_msg] \<rparr>"
  have n: "is_new_conversation hello_state ?c"
    by (simp add: is_new_conversation_def hello_state_def)
  have d: "distinct (map msgId [scenario_msg ''Hi'', ego_msg])"
    by (simp add: msgId_scenario msgId_ego)
  have l: "length (currentMessages hello_state) = 2" by (simp add: hello_state_def)
  obtain ops s' where r: "updateCurrentConversation (Some ?c) hello_state = Inr (ClearChildren # ops, s')"
    "currentMessages s' = map (\<lambda>m. (msgId m, m)) [scenario_msg ''Hi'', ego_msg]"
    "children s' = map (\<lambda>m. MsgDiv (new_node m)) [scenario_msg ''Hi'', ego_msg]"
    "processedMessageIds s' = {}" "stored_processed s' = Some []"
    "currentConversationId s' = conv_id ?c" "stored_conversation s' = conv_id ?c"
    using reset_correctness [of "Some ?c" ?c "[scenario_msg ''Hi'', ego_msg]" hello_state, OF _ _ _ n d]
    by auto
  have "currentMessages s' = [(''OBSERVER-1000'', scenario_msg ''Hi''), (''EGO-2000'', ego_msg)]"
    using r(2) by (simp add: msgId_scenario msgId_ego)
  moreover have "children s' = [MsgDiv (new_node (scenario_msg ''Hi'')), MsgDiv (new_node ego_msg)]"
    using r(3) by simp
  moreover have "currentConversationId s' = Some ''c2''" "stored_conversation s' = Some ''c2''"
    using r(6,7) by simp_all
  ultimately have "updateCurrentConversation (Some ?c) hello_state = Inr (ClearChildren # ops, s')
        \<and> currentMessages s' = [(''OBSERVER-1000'', scenario_msg ''Hi''), (''EGO-2000'', ego_msg)]
        \<and> children s' = [MsgDiv (new_node (scenario_msg ''Hi'')), MsgDiv (new_node ego_msg)]
        \<and> processedMessageIds s' = {}
        \<and> stored_processed s' = Some []
        \<and> currentConversationId s' = Some ''c2''
        \<and> stored_conversation s' = Some ''c2''
        \<and> length (currentMessages s') = 2"
    using r(1,4,5) by simp
  then show ?thesis using n d l by blast
qed

section \<open>C3: garbage collection\<close>

text \<open>
  C3: on a consistent state every call returns, and after it the keys of the store are
  exactly the keys of the snapshot's messages (none for an absent or empty conversation).
  A key that the snapshot lacks is in the store no longer, no node of the page has it, and
  if it was in the store before the call it is not in the processed-id set.
\<close>

theorem garbage_collection:
  assumes "consistent s"
  shows "\<exists>ops s'. updateCurrentConversation conversation s = Inr (ops, s')
     \<and> set (store_keys s') = set (map msgId (live_messages conversation))
     \<and> (\<forall>k. k \<notin> set (map msgId (live_messages conversation)) \<longrightarrow>
            k \<notin> set (store_keys s') \<and> rendered s' k = None
          \<and> (k \<in> set (store_keys s) \<longrightarrow> k \<notin> processedMessageIds s'))"
proof (cases conversation rule: live_cases)
  case awaiting
  then show ?thesis
    by (simp add: update_awaiting rendered_awaiting) (simp add: awaiting_def store_keys_def)
next
  case (live c msgs)
  let ?s1 = "start_state c s"
  have c1: "consistent ?s1" using assms by (rule consistent_start_state)
  obtain ops1 s2 where r: "render_all ?s1 msgs = Inr (ops1, s2)" and c2: "consistent s2"
    using render_all_total [OF c1] by blast
  let ?s3 = "snd (cleanup msgs s2)"
  have u: "updateCurrentConversation conversation s =
      Inr ((if is_new_conversation s c then [ClearChildren] else []) @ ops1 @ fst (cleanup msgs s2), ?s3)"
    using update_live [OF live(1-3) r] .
  have k2: "set (store_keys s2) = set (store_keys ?s1) \<union> set (map msgId msgs)"
    using render_all_key_set [OF r] .
  have k3: "set (store_keys ?s3) = set (map msgId msgs)"
    using k2 by (auto simp: cleanup_store_keys)
  have p3: "processedMessageIds ?s3 = processedMessageIds ?s1 - set (stale_keys msgs s2)"
    using cleanup_fields(1) [of msgs s2] render_all_fields [OF r] by simp
  have "k \<notin> processedMessageIds ?s3"
    if "k \<notin> set (map msgId msgs)" "k \<in> set (store_keys s)" for k
  proof (cases "is_new_conversation s c")
    case True
    then have "processedMessageIds ?s1 = {}" by (simp add: start_state_def reset_def)
    then show ?thesis using p3 by simp
  next
    case False
    then have "?s1 = s" by (simp add: start_state_def)
    then have "k \<in> set (stale_keys msgs s2)"
      using that k2 by (simp add: stale_keys_def)
    then show ?thesis using p3 by simp
  qed
  moreover have "rendered ?s3 k = None" if "k \<notin> set (map msgId msgs)" for k
    using that cleanup_rendered [OF c2, of msgs k] by simp
  ultimately show ?thesis
    using u k3 live(4) by auto
qed

text \<open>
  The theorem at \<open>hello_state\<close> and a snapshot without the message \<^verbatim>\<open>EGO-2000\<close>.
\<close>

theorem garbage_collection_witness:
  "consistent hello_state
   \<and> ''EGO-2000'' \<in> set (store_keys hello_state)
   \<and> ''EGO-2000'' \<in> processedMessageIds hello_state
   \<and> (\<exists>ops s'. updateCurrentConversation (scenario_snapshot ''Hello'') hello_state = Inr (ops, s')
        \<and> set (store_keys s') = {''OBSERVER-1000''}
        \<and> ''EGO-2000'' \<notin> set (store_keys s')
        \<and> rendered s' ''EGO-2000'' = None
        \<and> ''EGO-2000'' \<notin> processedMessageIds s')"
proof -
  have h: "''EGO-2000'' \<in> set (store_keys hello_state)"
    "''EGO-2000'' \<in> processedMessageIds hello_state"
    by (simp_all add: hello_state_def store_keys_def)
  have n: "''EGO-2000'' \<notin> set (map msgId (live_messages (scenario_snapshot ''Hello'')))"
    by (simp add: live_scenario msgId_scenario)
  show ?thesis
    using garbage_collection [OF consistent_hello_state, of "scenario_snapshot ''Hello''"]
      consistent_hello_state h n
    by (auto simp: live_scenario msgId_scenario)
qed

section \<open>C4: idempotence\<close>

text \<open>
  C4: on a consistent state every call returns, and a second call with the same snapshot
  returns the state of the first unchanged: the same store, the same page with the same
  rendered content of every message, the same remembered id, processed-id set and local
  storage. The second call appends no node and removes none. When the keys of the snapshot
  are pairwise distinct (as the data model requires of a conversation) the second call writes
  nothing to the page, so it sets no content; for an absent or empty conversation it writes
  the placeholder again.
\<close>

theorem apply_idempotent:
  assumes "consistent s"
  shows "\<exists>ops s1 ops2.
           updateCurrentConversation conversation s = Inr (ops, s1)
         \<and> updateCurrentConversation conversation s1 = Inr (ops2, s1)
         \<and> (\<forall>k. AppendChild k \<notin> set ops2 \<and> RemoveElem k \<notin> set ops2)
         \<and> (distinct (map msgId (live_messages conversation)) \<longrightarrow>
              ops2 = (if live_messages conversation = [] then [SetPlaceholder] else []))"
proof (cases conversation rule: live_cases)
  case awaiting
  then show ?thesis by (simp add: update_awaiting awaiting_idem)
next
  case (live c msgs)
  let ?s0 = "start_state c s"
  have c0: "consistent ?s0" using assms(1) by (rule consistent_start_state)
  obtain ops1 s2 where r: "render_all ?s0 msgs = Inr (ops1, s2)" and c2: "consistent s2"
    using render_all_total [OF c0] by blast
  let ?s3 = "snd (cleanup msgs s2)"
  have u: "updateCurrentConversation conversation s =
      Inr ((if is_new_conversation s c then [ClearChildren] else []) @ ops1 @ fst (cleanup msgs s2), ?s3)"
    using update_live [OF live(1-3) r] .
  have c3: "consistent ?s3" using cleanup_consistent [OF c2] .
  have k3: "set (store_keys ?s3) = set (map msgId msgs)"
    using render_all_key_set [OF r] by (auto simp: cleanup_store_keys)
  have id3: "currentConversationId ?s3 = currentConversationId ?s0"
    using cleanup_fields(2) [of msgs s2] render_all_fields [OF r] by simp
  have "\<not> is_new_conversation ?s3 c"
    using id3 by (auto simp: is_new_conversation_def start_state_def reset_def split: option.splits if_splits)
  then have st: "start_state c ?s3 = ?s3" "\<not> is_new_conversation ?s3 c"
    by (simp_all add: start_state_def)
  obtain ops4 s4 where r4: "render_all ?s3 msgs = Inr (ops4, s4)"
    using render_all_total [OF c3] by blast
  have sub: "set (map msgId msgs) \<subseteq> set (store_keys ?s3)" using k3 by simp
  note shape = render_all_seen_shape [OF r4 sub]
  have same: "rendered s4 k = rendered ?s3 k" for k
  proof (cases "k \<in> set (map msgId msgs)")
    case True
    have "rendered ?s3 k = rendered s2 k" using cleanup_rendered [OF c2, of msgs k] True by simp
    also have "\<dots> = merged k msgs (rendered ?s0 k)" using render_all_merge [OF c0 r] .
    finally have a: "rendered ?s3 k = merged k msgs (rendered ?s0 k)" .
    have "rendered s4 k = merged k msgs (rendered ?s3 k)" using render_all_merge [OF c3 r4] .
    then show ?thesis using a by (simp add: merged_idem)
  next
    case False
    have "rendered s4 k = merged k msgs (rendered ?s3 k)" using render_all_merge [OF c3 r4] .
    then show ?thesis using False by (simp add: merged_absent)
  qed
  have "children s4 = children ?s3"
  proof (rule same_header_eq)
    show "list_all2 same_header (children ?s3) (children s4)" using shape by simp
    show "distinct (node_ids (children ?s3))" using consistentD(3) [OF c3] .
    show "map_option msg_content (getElementById k (children s4)) =
            map_option msg_content (getElementById k (children ?s3))" for k
      using same [of k] by (simp add: rendered_def)
  qed
  then have s4: "s4 = ?s3" using shape by (metis state.surjective state.update_convs(2))
  have cl: "cleanup msgs ?s3 = ([], ?s3)"
    by (rule cleanup_nothing) (simp add: k3)
  have u2: "updateCurrentConversation conversation ?s3 = Inr (ops4, ?s3)"
    using update_live [OF live(1-3), of ?s3 ops4 s4] r4 st cl s4 by simp
  have noapp: "\<forall>k. AppendChild k \<notin> set ops4 \<and> RemoveElem k \<notin> set ops4" using shape by simp
  have "ops4 = []" if d: "distinct (map msgId msgs)"
  proof -
    have "settled ?s3 m" if m: "m \<in> set msgs" for m
    proof -
      have "settled s2 m" using render_all_settles [OF c0 d r m] .
      moreover have "rendered ?s3 (msgId m) = rendered s2 (msgId m)"
        using cleanup_rendered [OF c2, of msgs "msgId m"] m by simp
      moreover have "msgId m \<in> set (store_keys ?s3)" using k3 m by simp
      ultimately show ?thesis by (simp add: settled_def)
    qed
    then have "render_all ?s3 msgs = Inr ([], ?s3)" by (rule render_all_settled_noop)
    then show ?thesis using r4 by simp
  qed
  then show ?thesis using u u2 noapp live(3,4) by auto
qed

text \<open>
  The theorem at \<open>hello_state\<close> and the snapshot of \<^verbatim>\<open>c1\<close> with the content \<^verbatim>\<open>Hello there\<close>.
\<close>

theorem apply_idempotent_witness:
  "consistent hello_state
   \<and> distinct (map msgId (live_messages (scenario_snapshot ''Hello there'')))
   \<and> (\<exists>ops s1. updateCurrentConversation (scenario_snapshot ''Hello there'') hello_state = Inr (ops, s1)
        \<and> updateCurrentConversation (scenario_snapshot ''Hello there'') s1 = Inr ([], s1))"
proof -
  have d: "distinct (map msgId (live_messages (scenario_snapshot ''Hello there'')))"
    by (simp add: live_scenario)
  have n: "live_messages (scenario_snapshot ''Hello there'') \<noteq> []" by (simp add: live_scenario)
  obtain ops s1 ops2 where
    "updateCurrentConversation (scenario_snapshot ''Hello there'') hello_state = Inr (ops, s1)"
    "updateCurrentConversation (scenario_snapshot ''Hello there'') s1 = Inr (ops2, s1)"
    "distinct (map msgId (live_messages (scenario_snapshot ''Hello there''))) \<longrightarrow>
       ops2 = (if live_messages (scenario_snapshot ''Hello there'') = [] then [SetPlaceholder] else [])"
    using apply_idempotent [OF consistent_hello_state, of "scenario_snapshot ''Hello there''"]
    by blast
  then show ?thesis using d n consistent_hello_state by auto
qed

section \<open>C5: the shape of the frames\<close>

text \<open>
  C5, as stated, fails. For a grid of forty rows \<^verbatim>\<open>pulseEffect\<close> at frame 10 has a scale above 1
  (\<open>1 + sin 1 / 10\<close>), puts at least one blank row before the forty stretched rows and cuts
  nothing off (lines 114 to 119 and 138): the frame has more than \<open>height\<close> rows. The rows of
  that grid have one character, and \<^verbatim>\<open>waveEffect\<close> at frame 5 shifts row 0 by at least two
  columns: the row it produces is longer than \<open>width\<close>.
\<close>

theorem effect_grid_shape_counterexample:
  "grid tall_animator \<and> admissible zero_draws
   \<and> height tall_animator = 40 \<and> width tall_animator = 1
   \<and> 40 < length (fst (pulseEffect tall_animator 10 zero_draws 0))
   \<and> 1 < length (waveEffect tall_animator 5 ! 0)"
proof -
  have s: "pulse_scale 10 > 1" using sin_one_ge_half by (simp add: pulse_scale_10)
  have "length (fst (pulseEffect tall_animator 10 zero_draws 0)) = emptyLines tall_animator 10 + 40"
    using s by (simp add: length_pulseEffect tall_animator_fields)
  then have p: "40 < length (fst (pulseEffect tall_animator 10 zero_draws 0))"
    using emptyLines_tall by simp
  have "waveEffect tall_animator 5 ! 0 = shift_row (wave_offset 0 5) ''#''"
    by (simp add: waveEffect_def tall_animator_fields del: upt_Suc)
  then have "length (waveEffect tall_animator 5 ! 0) = max 1 (nat \<bar>wave_offset 0 5\<bar>)"
    by (simp add: length_shift_row)
  then have w: "1 < length (waveEffect tall_animator 5 ! 0)"
    using wave_offset_0_5 by simp
  show ?thesis
    using p w grid_tall_animator admissible_zero_draws by (simp add: tall_animator_fields)
qed

text \<open>
  C5, amended: for a well-formed grid and admissible draws, at every frame index, the frames
  of wave, glitch, matrix and blink have exactly \<open>height\<close> rows; the rows of matrix and blink
  have exactly \<open>width\<close> characters, those of wave when the grid is at least 4 columns wide
  and those of glitch when it is at least 5 columns wide; the frames of bounce, shake and dance
  have at most \<open>height\<close> rows; the frame of pulse has at most \<open>height\<close> rows when the scale
  is at most 1, and \<open>height\<close> rows plus the \<open>emptyLines\<close> blank rows when the scale is above 1.
\<close>

theorem effect_grid_shape:
  assumes "grid a" "admissible r"
  shows "length (waveEffect a frame) = height a
       \<and> length (fst (glitchEffect a frame r i)) = height a
       \<and> length (fst (matrixEffect a frame r i)) = height a
       \<and> length (blinkEffect a frame) = height a
       \<and> list_all (\<lambda>l. length l = width a) (fst (matrixEffect a frame r i))
       \<and> list_all (\<lambda>l. length l = width a) (blinkEffect a frame)
       \<and> (4 \<le> width a \<longrightarrow> list_all (\<lambda>l. length l = width a) (waveEffect a frame))
       \<and> (5 \<le> width a \<longrightarrow> list_all (\<lambda>l. length l = width a) (fst (glitchEffect a frame r i)))
       \<and> length (bounceEffect a frame) \<le> height a
       \<and> length (fst (shakeEffect a frame r i)) \<le> height a
       \<and> length (fst (danceEffect a frame r i)) \<le> height a
       \<and> (pulse_scale frame \<le> 1 \<longrightarrow> length (fst (pulseEffect a frame r i)) \<le> height a)
       \<and> (pulse_scale frame > 1 \<longrightarrow>
            length (fst (pulseEffect a frame r i)) = emptyLines a frame + height a)"
proof -
  note h = gridD(1) [OF assms(1)]
  have "pulse_scale frame \<le> 1 \<longrightarrow> length (fst (pulseEffect a frame r i)) \<le> height a"
    using length_drop_rows [of r "pulse_scale frame" i "lines a"] h
    by (simp add: length_pulseEffect)
  moreover have "pulse_scale frame > 1 \<longrightarrow>
            length (fst (pulseEffect a frame r i)) = emptyLines a frame + height a"
    using h by (simp add: length_pulseEffect)
  ultimately show ?thesis
    using h wave_rows [OF assms(1)] glitch_rows [OF assms] matrix_rows [OF assms(1)]
      blink_rows [OF assms(1)] length_danceEffect [OF assms(1)]
    by (simp add: length_waveEffect length_glitchEffect length_matrixEffect length_blinkEffect
        length_bounceEffect length_shakeEffect)
qed

text \<open>
  The theorem at the grid of three rows of five characters, frame 7.
\<close>

theorem effect_grid_shape_witness:
  "grid box_animator \<and> admissible high_draws
   \<and> length (waveEffect box_animator 7) = height box_animator
   \<and> length (fst (glitchEffect box_animator 7 high_draws 0)) = height box_animator
   \<and> length (fst (matrixEffect box_animator 7 high_draws 0)) = height box_animator
   \<and> length (blinkEffect box_animator 7) = height box_animator
   \<and> list_all (\<lambda>l. length l = width box_animator) (fst (matrixEffect box_animator 7 high_draws 0))
   \<and> list_all (\<lambda>l. length l = width box_animator) (blinkEffect box_animator 7)
   \<and> list_all (\<lambda>l. length l = width box_animator) (waveEffect box_animator 7)
   \<and> list_all (\<lambda>l. length l = width box_animator) (fst (glitchEffect box_animator 7 high_draws 0))
   \<and> length (bounceEffect box_animator 7) \<le> height box_animator
   \<and> length (fst (shakeEffect box_animator 7 high_draws 0)) \<le> height box_animator
   \<and> length (fst (danceEffect box_animator 7 high_draws 0)) \<le> height box_animator"
proof -
  have w: "4 \<le> width box_animator" "5 \<le> width box_animator"
    by (simp_all add: box_animator_fields)
  show ?thesis
    using effect_grid_shape [OF grid_box_animator admissible_high_draws, of 7 0] w
      grid_box_animator admissible_high_draws
    by blast
qed

section \<open>C6: the composite key and the scenario\<close>

text \<open>
  C6, as stated, fails: the key of the message \<^verbatim>\<open>{agent: "OBSERVER", timestamp: 1000,
  content: "Hi"}\<close> is not \<^verbatim>\<open>OBSERVER:1000\<close>. Lines 550 and 592 join the agent and the
  timestamp with a hyphen, so the key is \<^verbatim>\<open>OBSERVER-1000\<close>.
\<close>

theorem composite_key_colon_counterexample:
  "msgId \<lparr> agent = ''OBSERVER'', timestamp = 1000, content = Some ''Hi'' \<rparr> \<noteq> ''OBSERVER:1000''
   \<and> msgId \<lparr> agent = ''OBSERVER'', timestamp = 1000, content = Some ''Hi'' \<rparr> = ''OBSERVER-1000''"
  by (simp add: msgId_def number_string_def digits.simps)

lemma scenario_first:
  assumes "currentMessages s = []" "node_ids (children s) = []"
  shows "\<exists>ops1 s1. updateCurrentConversation (scenario_snapshot ''Hi'') s = Inr (ops1, s1)
     \<and> consistent s1 \<and> store_keys s1 = [''OBSERVER-1000'']
     \<and> node_ids (children s1) = [''OBSERVER-1000'']
     \<and> rendered s1 ''OBSERVER-1000'' = Some ''Hi''
     \<and> currentConversationId s1 = Some ''c1''"
proof -
  let ?c = "\<lparr> conv_id = Some ''c1'', messages = Some [scenario_msg ''Hi''] \<rparr>"
  let ?s0 = "start_state ?c s"
  have c0: "consistent s" using assms by (simp add: consistent_def store_keys_def)
  have e: "currentMessages ?s0 = []" "node_ids (children ?s0) = []"
    using assms by (simp_all add: start_state_def reset_def)
  have id0: "currentConversationId ?s0 = Some ''c1''"
    by (auto simp: start_state_def reset_def is_new_conversation_def)
  have c1: "consistent ?s0" using c0 by (rule consistent_start_state)
  have fresh: "msgId (scenario_msg ''Hi'') \<notin> set (store_keys ?s0)"
    using e by (simp add: store_keys_def)
  obtain ops1 s2 where r: "render_msg ?s0 (scenario_msg ''Hi'') = Inr (ops1, s2)"
    using render_msg_total [OF c1] by blast
  have ra: "render_all ?s0 [scenario_msg ''Hi''] = Inr (ops1, s2)"
    using r by simp
  have c2: "consistent s2" using render_msg_consistent [OF c1 r] .
  have k2: "store_keys s2 = [''OBSERVER-1000'']"
    using render_msg_keys [OF r] fresh e by (simp add: store_keys_def msgId_scenario)
  have r2: "rendered s2 ''OBSERVER-1000'' = Some ''Hi''"
    using render_msg_rendered_new [OF c1 r fresh]
    by (simp add: msgId_scenario msg_text_scenario)
  have id2: "currentConversationId s2 = Some ''c1''"
    using render_msg_fields(2) [OF r] id0 by simp
  have cl: "cleanup [scenario_msg ''Hi''] s2 = ([], s2)"
    by (rule cleanup_nothing) (simp add: k2 msgId_scenario)
  have "updateCurrentConversation (scenario_snapshot ''Hi'') s =
          Inr ((if is_new_conversation s ?c then [ClearChildren] else []) @ ops1, s2)"
    using update_live [OF _ _ _ ra, of "scenario_snapshot ''Hi''"] cl
    by (simp add: scenario_snapshot_def)
  then show ?thesis
    using c2 k2 r2 id2 consistentD(1) [OF c2] by simp
qed

lemma scenario_second:
  assumes "consistent s1" "store_keys s1 = [''OBSERVER-1000'']"
    "rendered s1 ''OBSERVER-1000'' = Some ''Hi''" "currentConversationId s1 = Some ''c1''"
  shows "updateCurrentConversation (scenario_snapshot ''Hi there'') s1 =
           Inr (SetContent ''OBSERVER-1000'' ''Hi there'' # scroll_ops s1,
                s1\<lparr>children := set_content ''OBSERVER-1000'' ''Hi there'' (children s1)\<rparr>)"
proof -
  let ?c = "\<lparr> conv_id = Some ''c1'', messages = Some [scenario_msg ''Hi there''] \<rparr>"
  let ?m = "scenario_msg ''Hi there''"
  let ?s2 = "s1\<lparr>children := set_content ''OBSERVER-1000'' ''Hi there'' (children s1)\<rparr>"
  have n: "\<not> is_new_conversation s1 ?c"
    using assms(4) by (simp add: is_new_conversation_def)
  then have st: "start_state ?c s1 = s1" by (simp add: start_state_def)
  obtain n where g: "getElementById ''OBSERVER-1000'' (children s1) = Some n" "msg_content n = ''Hi''"
    using assms(3) by (auto simp: rendered_def)
  have "render_msg s1 ?m = Inr (SetContent ''OBSERVER-1000'' ''Hi there'' # scroll_ops s1, ?s2)"
    using render_msg_seen [of ?m s1 n] g assms(2)
    by (simp add: msgId_scenario msg_text_scenario)
  then have ra: "render_all (start_state ?c s1) [?m] =
      Inr (SetContent ''OBSERVER-1000'' ''Hi there'' # scroll_ops s1, ?s2)"
    by (simp add: st)
  have cl: "cleanup [?m] ?s2 = ([], ?s2)"
    by (rule cleanup_nothing) (simp add: store_keys_def assms(2) [unfolded store_keys_def] msgId_scenario)
  show ?thesis
    using update_live [OF _ _ _ ra, of "scenario_snapshot ''Hi there''"] cl n
    by (simp add: scenario_snapshot_def)
qed

text \<open>
  C6, amended: the composite key of a message is its agent, a hyphen and the decimal
  text of its timestamp. Applying the snapshot with the single message
  \<^verbatim>\<open>{agent: "OBSERVER", timestamp: 1000, content: "Hi"}\<close> to a state with an empty store
  and no message node returns, and leaves exactly one key and one message node,
  \<^verbatim>\<open>OBSERVER-1000\<close>, with the text \<^verbatim>\<open>Hi\<close> of length 2; applying then the snapshot with
  the content \<^verbatim>\<open>Hi there\<close> returns, writes the content of that same node and appends
  nothing, and the node's text has length 8.
\<close>

theorem composite_key_scenario:
  assumes "currentMessages s = []" "node_ids (children s) = []"
  shows "msgId msg = agent msg @ ''-'' @ number_string (timestamp msg)
    \<and> (\<exists>ops1 s1 ops2 s2.
          updateCurrentConversation (scenario_snapshot ''Hi'') s = Inr (ops1, s1)
        \<and> store_keys s1 = [''OBSERVER-1000'']
        \<and> node_ids (children s1) = [''OBSERVER-1000'']
        \<and> rendered s1 ''OBSERVER-1000'' = Some ''Hi''
        \<and> length ''Hi'' = 2
        \<and> updateCurrentConversation (scenario_snapshot ''Hi there'') s1 = Inr (ops2, s2)
        \<and> ops2 = SetContent ''OBSERVER-1000'' ''Hi there'' # scroll_ops s1
        \<and> store_keys s2 = [''OBSERVER-1000'']
        \<and> node_ids (children s2) = [''OBSERVER-1000'']
        \<and> rendered s2 ''OBSERVER-1000'' = Some ''Hi there''
        \<and> length ''Hi there'' = 8)"
proof -
  obtain ops1 s1 where f: "updateCurrentConversation (scenario_snapshot ''Hi'') s = Inr (ops1, s1)"
     "consistent s1" "store_keys s1 = [''OBSERVER-1000'']"
     "node_ids (children s1) = [''OBSERVER-1000'']"
     "rendered s1 ''OBSERVER-1000'' = Some ''Hi''"
     "currentConversationId s1 = Some ''c1''"
    using scenario_first [OF assms] by blast
  let ?s2 = "s1\<lparr>children := set_content ''OBSERVER-1000'' ''Hi there'' (children s1)\<rparr>"
  have g: "updateCurrentConversation (scenario_snapshot ''Hi there'') s1 =
           Inr (SetContent ''OBSERVER-1000'' ''Hi there'' # scroll_ops s1, ?s2)"
    using scenario_second [OF f(2,3,5,6)] .
  have "store_keys ?s2 = [''OBSERVER-1000'']" using f(3) by (simp add: store_keys_def)
  moreover have "node_ids (children ?s2) = [''OBSERVER-1000'']"
    using f(4) by (simp add: node_ids_set_content)
  moreover have "rendered ?s2 ''OBSERVER-1000'' = Some ''Hi there''"
    using f(5) by (auto simp: rendered_def getElementById_set_content)
  ultimately show ?thesis
    using f(1,3,4,5) g by (simp add: msgId_def)
qed

text \<open>The scenario at the state of the page at load, with nothing in local storage.\<close>

theorem composite_key_scenario_witness:
  "currentMessages (initial_state None None) = []
   \<and> node_ids (children (initial_state None None)) = []
   \<and> (\<exists>ops1 s1 ops2 s2.
          updateCurrentConversation (scenario_snapshot ''Hi'') (initial_state None None) = Inr (ops1, s1)
        \<and> node_ids (children s1) = [''OBSERVER-1000'']
        \<and> rendered s1 ''OBSERVER-1000'' = Some ''Hi''
        \<and> updateCurrentConversation (scenario_snapshot ''Hi there'') s1 = Inr (ops2, s2)
        \<and> node_ids (children s2) = [''OBSERVER-1000'']
        \<and> rendered s2 ''OBSERVER-1000'' = Some ''Hi there'')"
proof -
  have h: "currentMessages (initial_state None None) = []"
    "node_ids (children (initial_state None None)) = []"
    by (simp_all add: initial_state_def)
  show ?thesis
    using h composite_key_scenario [OF h] by blast
qed

section \<open>C7: the persisted cache\<close>

text \<open>
  C7, as stated, fails. At load, with \<^verbatim>\<open>["EGO-2000"]\<close> in local storage, an absent conversation
  clears the processed-id set in memory (line 528) and writes nothing: local storage still
  holds \<^verbatim>\<open>["EGO-2000"]\<close>. The cleanup does the same (line 601, and the comment of line 606):
  in \<open>hello_state\<close> a snapshot without \<^verbatim>\<open>EGO-2000\<close> deletes the key in memory only.
\<close>

theorem persisted_cache_counterexample:
  "processedMessageIds (initial_state (Some ''c1'') (Some [''EGO-2000''])) = {''EGO-2000''}
   \<and> stored_processed (initial_state (Some ''c1'') (Some [''EGO-2000''])) = Some [''EGO-2000'']
   \<and> updateCurrentConversation None (initial_state (Some ''c1'') (Some [''EGO-2000''])) =
       Inr ([SetPlaceholder], awaiting (initial_state (Some ''c1'') (Some [''EGO-2000''])))
   \<and> processedMessageIds (awaiting (initial_state (Some ''c1'') (Some [''EGO-2000'']))) = {}
   \<and> stored_processed (awaiting (initial_state (Some ''c1'') (Some [''EGO-2000'']))) = Some [''EGO-2000'']
   \<and> processedMessageIds hello_state = {''EGO-2000''}
   \<and> stored_processed hello_state = Some [''EGO-2000'']
   \<and> updateCurrentConversation (scenario_snapshot ''Hello'') hello_state =
       Inr ([RemoveElem ''EGO-2000''], collected_state)
   \<and> processedMessageIds collected_state = {}
   \<and> stored_processed collected_state = Some [''EGO-2000'']"
  by (simp add: hello_collect) (simp add: updateCurrentConversation_def initial_state_def awaiting_def
      hello_state_def collected_state_def)

text \<open>
  C7, amended: local storage is written only by the reset. A call that returns keeps the
  stored conversation id equal to the remembered one if they were equal before. A call that
  resets remembers and stores the id of the snapshot, and leaves the processed-id set empty
  in memory and in local storage. A call that does not reset leaves the remembered id and
  both stored values as they were, and can only shrink the processed-id set in memory.
\<close>

theorem persisted_cache_writes:
  assumes "updateCurrentConversation conversation s = Inr (ops, s')"
  shows "(stored_conversation s = currentConversationId s \<longrightarrow>
            stored_conversation s' = currentConversationId s')
       \<and> (resets conversation s \<longrightarrow>
            currentConversationId s' = stored_conversation s' \<and> processedMessageIds s' = {}
            \<and> stored_processed s' = Some []
            \<and> (\<exists>c. conversation = Some c \<and> currentConversationId s' = conv_id c))
       \<and> (\<not> resets conversation s \<longrightarrow>
            currentConversationId s' = currentConversationId s
            \<and> stored_conversation s' = stored_conversation s
            \<and> stored_processed s' = stored_processed s
            \<and> processedMessageIds s' \<subseteq> processedMessageIds s)"
proof (cases conversation rule: live_cases)
  case awaiting
  then have "s' = awaiting s" using assms by (simp add: update_awaiting)
  moreover have "\<not> resets conversation s"
    using awaiting by (auto simp: resets_def split: option.splits)
  ultimately show ?thesis by (simp add: awaiting_def)
next
  case (live c msgs)
  from update_liveD [OF live(1-3) assms] obtain ops1 s2 where
    r: "render_all (start_state c s) msgs = Inr (ops1, s2)" and s': "s' = snd (cleanup msgs s2)"
    by blast
  note f2 = render_all_fields [OF r]
  note f3 = cleanup_fields [of msgs s2]
  show ?thesis
  proof (cases "resets conversation s")
    case True
    then have "start_state c s = reset c s"
      using start_state_reset [OF live(1)] live(3,4) by simp
    then show ?thesis
      using True f2 f3 s' live(1) by (simp add: reset_def)
  next
    case False
    then have "start_state c s = s"
      using start_state_no_reset [OF live(1)] live(3,4) by simp
    then show ?thesis
      using False f2 f3 s' by auto
  qed
qed

text \<open>
  The theorem at \<open>hello_state\<close> and a snapshot of the conversation \<^verbatim>\<open>c2\<close>.
\<close>

theorem persisted_cache_writes_witness:
  "updateCurrentConversation (other_snapshot ''Hi'') hello_state =
     Inr ([ClearChildren, AppendChild ''OBSERVER-1000'', ScrollToBottom], reset_state)
   \<and> resets (other_snapshot ''Hi'') hello_state
   \<and> stored_conversation hello_state = currentConversationId hello_state
   \<and> stored_conversation reset_state = currentConversationId reset_state
   \<and> processedMessageIds reset_state = {}
   \<and> stored_processed reset_state = Some []"
proof -
  have i: "stored_conversation hello_state = currentConversationId hello_state"
    by (simp add: hello_state_def)
  have "stored_conversation reset_state = currentConversationId reset_state
    \<and> processedMessageIds reset_state = {} \<and> stored_processed reset_state = Some []"
    using persisted_cache_writes [OF hello_reset] resets_other i by blast
  then show ?thesis using hello_reset resets_other i by blast
qed

section \<open>C8: the shake effect\<close>

lemma shake_values:
  "shakeX (zero_draws 0) = - 2" "shakeY (zero_draws 1) = - 1"
  "shakeX (high_draws 0) = 2" "shakeY (high_draws 1) = 1"
  by (simp_all add: shakeX_def shakeY_def zero_draws_def high_draws_def)

text \<open>
  C8, as stated, fails. The vertical jitter is \<^verbatim>\<open>Math.floor(Math.random() * 3) - 1\<close> (line
  162): for the draw 0 it is \<open>-1\<close>, outside \<open>[0, 2]\<close>, and no blank row is put before the
  rows; for the draw 0.9 it is 1, its largest value, and one blank row is put before the rows,
  so the last row of the grid is cut off.
\<close>

theorem shake_rule_counterexample:
  "admissible zero_draws
   \<and> shakeY (zero_draws 1) = - 1
   \<and> shakeEffect box_animator 0 zero_draws 0 = ([''--+  '', '' o|  '', ''--+  ''], 2)
   \<and> admissible high_draws
   \<and> shakeY (high_draws 1) = 1
   \<and> shakeEffect box_animator 0 high_draws 0 = ([''     '', ''  +--'', ''  |o ''], 2)"
proof -
  have "shakeEffect box_animator 0 zero_draws 0 = ([''--+  '', '' o|  '', ''--+  ''], 2)"
    using shake_values(1,2)
    by (simp add: shakeEffect_def Let_def box_animator_fields shift_row_def numeral_eq_Suc)
  moreover have "shakeEffect box_animator 0 high_draws 0 = ([''     '', ''  +--'', ''  |o ''], 2)"
    using shake_values(3,4)
    by (simp add: shakeEffect_def Let_def box_animator_fields shift_row_def blank_row_def
        numeral_eq_Suc)
  ultimately show ?thesis
    using admissible_zero_draws admissible_high_draws shake_values by simp
qed

text \<open>
  C8, amended: on every frame shake reads two draws. The first gives the horizontal jitter
  \<open>\<lfloor>5 x\<rfloor> - 2\<close>, in \<open>[-2, 2]\<close>, each value for the draws of an interval of length \<open>1/5\<close>; the
  second gives the vertical jitter \<open>\<lfloor>3 x\<rfloor> - 1\<close>, in \<open>[-1, 1]\<close>, each value for the draws of
  an interval of length \<open>1/3\<close>. The frame is the grid with every row shifted by the horizontal
  jitter (by \<open>shift_row\<close>, the rule that wave applies to its rows), after one blank row when
  the vertical jitter is 1 and after none otherwise, cut to \<open>height\<close> rows.
\<close>

theorem shake_rule:
  assumes "admissible r"
  shows "shakeX (r i) \<in> {- 2..2} \<and> shakeY (r (Suc i)) \<in> {- 1..1}
       \<and> shakeEffect a frame r i =
           (take (height a)
              (replicate (if shakeY (r (Suc i)) = 1 then 1 else 0) (blank_row a)
                 @ map (shift_row (shakeX (r i))) (lines a)),
            i + 2)
       \<and> (\<forall>x k. shakeX x = k \<longleftrightarrow> (of_int k + 2) / 5 \<le> x \<and> x < (of_int k + 3) / 5)
       \<and> (\<forall>x k. shakeY x = k \<longleftrightarrow> (of_int k + 1) / 3 \<le> x \<and> x < (of_int k + 2) / 3)
       \<and> waveEffect a frame =
           map (\<lambda>y. shift_row (wave_offset y frame) (lines a ! y)) [0..<length (lines a)]"
proof -
  have x: "shakeX (r i) \<in> {- 2..2}" and y: "shakeY (r (Suc i)) \<in> {- 1..1}"
    using assms shake_ranges by (auto simp: admissible_def)
  have "(if shakeY (r (Suc i)) > 0 then replicate (nat (shakeY (r (Suc i)))) (blank_row a) else [])
          = replicate (if shakeY (r (Suc i)) = 1 then 1 else 0) (blank_row a)"
  proof (cases "shakeY (r (Suc i)) > 0")
    case True
    then have "shakeY (r (Suc i)) = 1" using y by simp
    then show ?thesis by simp
  next
    case False
    then show ?thesis by simp
  qed
  then have "shakeEffect a frame r i =
           (take (height a)
              (replicate (if shakeY (r (Suc i)) = 1 then 1 else 0) (blank_row a)
                 @ map (shift_row (shakeX (r i))) (lines a)),
            i + 2)"
    by (simp add: shakeEffect_def Let_def)
  then show ?thesis
    using x y shakeX_iff shakeY_iff by (simp add: waveEffect_def)
qed

text \<open>
  The theorem at the grid of three rows and the draws 0.9.
\<close>

theorem shake_rule_witness:
  "admissible high_draws
   \<and> shakeX (high_draws 0) \<in> {- 2..2} \<and> shakeY (high_draws (Suc 0)) \<in> {- 1..1}
   \<and> shakeEffect box_animator 0 high_draws 0 =
       (take (height box_animator)
          (replicate (if shakeY (high_draws (Suc 0)) = 1 then 1 else 0) (blank_row box_animator)
             @ map (shift_row (shakeX (high_draws 0))) (lines box_animator)),
        0 + 2)"
  using shake_rule [OF admissible_high_draws, of 0 box_animator 0] admissible_high_draws
  by blast

section \<open>C9: stop restores the base grid\<close>

lemma stopAnimation_eq:
  assumes "art_text b \<noteq> None" "animationId a \<noteq> Some 0"
  shows "stopAnimation (a, b) =
           (a\<lparr>animationId := None, currentAnimation := None\<rparr>,
            b\<lparr> art_text := Some (join_lines (lines a)),
               frame_requests :=
                 (case animationId a of
                    None \<Rightarrow> frame_requests b
                  | Some h \<Rightarrow> removeAll h (frame_requests b)) \<rparr>)"
  using assms
  by (cases "animationId a")
    (auto simp: stopAnimation_def displayFrame_def cancelAnimationFrame_def Let_def)

lemma frame_callback_result:
  assumes "art_text b \<noteq> None"
  shows "\<exists>a1 b1 j. frame_callback startTime currentTime r i (a, b) = ((a1, b1), j)
     \<and> lines a1 = lines a \<and> animationId a1 = Some (next_handle b)
     \<and> art_text b1 \<noteq> None
     \<and> frame_requests b1 = frame_requests b @ [next_handle b]"
  using assms
  by (auto simp: frame_callback_def displayFrame_def requestAnimationFrame_def Let_def split_beta
      split: option.splits)

lemma animate_result:
  assumes "art_text b \<noteq> None" "animationId a = None"
  shows "\<exists>a1 b1 j. animate startTime currentTime r i (a, b) = ((a1, b1), j)
     \<and> lines a1 = lines a \<and> art_text b1 \<noteq> None
     \<and> ((animationId a1 = None \<and> frame_requests b1 = frame_requests b)
        \<or> (animationId a1 = Some (next_handle b)
            \<and> frame_requests b1 = frame_requests b @ [next_handle b]))"
proof (cases "\<exists>name. currentAnimation a = Some name \<and> name \<noteq> []")
  case True
  then have "animate startTime currentTime r i (a, b) = frame_callback startTime currentTime r i (a, b)"
    by (auto simp: animate_def)
  then show ?thesis using frame_callback_result [OF assms(1), of startTime currentTime r i a] by auto
next
  case False
  then have "animate startTime currentTime r i (a, b) = ((a, b), i)"
    by (auto simp: animate_def split: option.splits)
  then show ?thesis using assms by simp
qed

lemma ragged_fields:
  "lines (ASCIIAnimator ragged_art) = [''ab  '', ''cdef'', ''g   '']"
  "animationId (ASCIIAnimator ragged_art) = None"
  unfolding ragged_art_def by code_simp+

text \<open>
  C9: on a page that has the art element, \<^verbatim>\<open>stopAnimation\<close> cancels the pending frame
  callback of the animator, clears \<open>animationId\<close> and \<open>currentAnimation\<close>, and displays the
  rows \<open>lines\<close> joined by newlines. After \<^verbatim>\<open>startAnimation\<close> of any effect followed at once by
  \<^verbatim>\<open>stopAnimation\<close>, whatever the clock and the draws, the displayed text is again the joined
  \<open>lines\<close>, no animation is current, and the pending callbacks are those of before without
  the animator's. The \<open>lines\<close> of a constructed animator are the rows of the trimmed art,
  each padded with spaces to the common width.
\<close>

theorem stop_restores_base_grid:
  assumes "art_text b \<noteq> None" "animationId a \<noteq> Some 0" "fresh_handles b"
  shows "stopAnimation (a, b) =
           (a\<lparr>animationId := None, currentAnimation := None\<rparr>,
            b\<lparr> art_text := Some (join_lines (lines a)),
               frame_requests :=
                 (case animationId a of
                    None \<Rightarrow> frame_requests b
                  | Some h \<Rightarrow> removeAll h (frame_requests b)) \<rparr>)
       \<and> (\<exists>a1 b1 j a2 b2.
             startAnimation animationType startTime currentTime r i (a, b) = ((a1, b1), j)
           \<and> stopAnimation (a1, b1) = (a2, b2)
           \<and> art_text b2 = Some (join_lines (lines a))
           \<and> lines a2 = lines a
           \<and> currentAnimation a2 = None
           \<and> animationId a2 = None
           \<and> frame_requests b2 =
               (case animationId a of
                  None \<Rightarrow> frame_requests b
                | Some h \<Rightarrow> removeAll h (frame_requests b)))
       \<and> originalLines (ASCIIAnimator asciiArt) = split_newline (trim asciiArt)
       \<and> lines (ASCIIAnimator asciiArt) =
           map (padEnd (width (ASCIIAnimator asciiArt))) (originalLines (ASCIIAnimator asciiArt))
       \<and> grid (ASCIIAnimator asciiArt)"
proof -
  let ?fr = "case animationId a of None \<Rightarrow> frame_requests b | Some h \<Rightarrow> removeAll h (frame_requests b)"
  let ?a0 = "a\<lparr>animationId := None, currentAnimation := None\<rparr>"
  let ?b0 = "b\<lparr>art_text := Some (join_lines (lines a)), frame_requests := ?fr\<rparr>"
  have s0: "stopAnimation (a, b) = (?a0, ?b0)"
    using stopAnimation_eq [OF assms(1,2)] .
  let ?a0' = "?a0\<lparr>currentAnimation := Some animationType, animationFrame := 0\<rparr>"
  have st: "startAnimation animationType startTime currentTime r i (a, b) =
              animate startTime currentTime r i (?a0', ?b0)"
    by (simp add: startAnimation_def s0)
  have nh: "next_handle ?b0 = next_handle b" by simp
  have fresh: "next_handle b \<noteq> 0" "next_handle b \<notin> set ?fr"
    using assms(3) by (auto simp: fresh_handles_def split: option.splits)
  obtain a1 b1 j where an: "animate startTime currentTime r i (?a0', ?b0) = ((a1, b1), j)"
    "lines a1 = lines a" "art_text b1 \<noteq> None"
    "(animationId a1 = None \<and> frame_requests b1 = ?fr)
      \<or> (animationId a1 = Some (next_handle b) \<and> frame_requests b1 = ?fr @ [next_handle b])"
    using animate_result [of ?b0 ?a0' startTime currentTime r i] by auto
  have id1: "animationId a1 \<noteq> Some 0" using an(4) fresh(1) by auto
  obtain a2 b2 where s1: "stopAnimation (a1, b1) = (a2, b2)"
    "a2 = a1\<lparr>animationId := None, currentAnimation := None\<rparr>"
    "b2 = b1\<lparr> art_text := Some (join_lines (lines a1)),
               frame_requests :=
                 (case animationId a1 of
                    None \<Rightarrow> frame_requests b1
                  | Some h \<Rightarrow> removeAll h (frame_requests b1)) \<rparr>"
    using stopAnimation_eq [OF an(3) id1] by blast
  have "frame_requests b2 = ?fr"
    using an(4) fresh(2) s1(3) by auto
  then have "startAnimation animationType startTime currentTime r i (a, b) = ((a1, b1), j)
           \<and> stopAnimation (a1, b1) = (a2, b2)
           \<and> art_text b2 = Some (join_lines (lines a))
           \<and> lines a2 = lines a
           \<and> currentAnimation a2 = None
           \<and> animationId a2 = None
           \<and> frame_requests b2 = ?fr"
    using st an(1,2) s1 by simp
  then have scenario: "\<exists>a1 b1 j a2 b2.
             startAnimation animationType startTime currentTime r i (a, b) = ((a1, b1), j)
           \<and> stopAnimation (a1, b1) = (a2, b2)
           \<and> art_text b2 = Some (join_lines (lines a))
           \<and> lines a2 = lines a
           \<and> currentAnimation a2 = None
           \<and> animationId a2 = None
           \<and> frame_requests b2 = ?fr"
    by blast
  have "originalLines (ASCIIAnimator asciiArt) = split_newline (trim asciiArt)"
    "lines (ASCIIAnimator asciiArt) =
           map (padEnd (width (ASCIIAnimator asciiArt))) (originalLines (ASCIIAnimator asciiArt))"
    by (simp_all add: ASCIIAnimator_def Let_def)
  then show ?thesis using s0 scenario grid_ASCIIAnimator by blast
qed

text \<open>
  The theorem at an art with rows of two, four and one characters, and a page without pending
  callbacks.
\<close>

theorem stop_restores_base_grid_witness:
  "art_text idle_browser \<noteq> None
   \<and> animationId (ASCIIAnimator ragged_art) \<noteq> Some 0
   \<and> fresh_handles idle_browser
   \<and> lines (ASCIIAnimator ragged_art) = [''ab  '', ''cdef'', ''g   '']
   \<and> (\<exists>a1 b1 j a2 b2.
         startAnimation ''wave'' 0 0 zero_draws 0 (ASCIIAnimator ragged_art, idle_browser) = ((a1, b1), j)
       \<and> stopAnimation (a1, b1) = (a2, b2)
       \<and> art_text b2 = Some (''ab  '' @ [CHR 0x0A] @ ''cdef'' @ [CHR 0x0A] @ ''g   '')
       \<and> lines a2 = [''ab  '', ''cdef'', ''g   '']
       \<and> currentAnimation a2 = None
       \<and> animationId a2 = None
       \<and> frame_requests b2 = [])"
proof -
  have h: "art_text idle_browser \<noteq> None" "animationId (ASCIIAnimator ragged_art) \<noteq> Some 0"
    "fresh_handles idle_browser"
    by (simp_all add: idle_browser_def ragged_fields fresh_handles_def)
  have j: "join_lines [''ab  '', ''cdef'', ''g   ''] = ''ab  '' @ [CHR 0x0A] @ ''cdef'' @ [CHR 0x0A] @ ''g   ''"
    by simp
  have f: "(case animationId (ASCIIAnimator ragged_art) of
              None \<Rightarrow> frame_requests idle_browser
            | Some h \<Rightarrow> removeAll h (frame_requests idle_browser)) = []"
    by (simp add: idle_browser_def ragged_fields)
  have "\<exists>a1 b1 j a2 b2.
         startAnimation ''wave'' 0 0 zero_draws 0 (ASCIIAnimator ragged_art, idle_browser) = ((a1, b1), j)
       \<and> stopAnimation (a1, b1) = (a2, b2)
       \<and> art_text b2 = Some (join_lines (lines (ASCIIAnimator ragged_art)))
       \<and> lines a2 = lines (ASCIIAnimator ragged_art)
       \<and> currentAnimation a2 = None
       \<and> animationId a2 = None
       \<and> frame_requests b2 = []"
    using stop_restores_base_grid [OF h, of "''wave''" 0 0 zero_draws 0] unfolding f by blast
  then have "\<exists>a1 b1 j a2 b2.
         startAnimation ''wave'' 0 0 zero_draws 0 (ASCIIAnimator ragged_art, idle_browser) = ((a1, b1), j)
       \<and> stopAnimation (a1, b1) = (a2, b2)
       \<and> art_text b2 = Some (''ab  '' @ [CHR 0x0A] @ ''cdef'' @ [CHR 0x0A] @ ''g   '')
       \<and> lines a2 = [''ab  '', ''cdef'', ''g   '']
       \<and> currentAnimation a2 = None
       \<and> animationId a2 = None
       \<and> frame_requests b2 = []"
    unfolding ragged_fields j .
  then show ?thesis using h ragged_fields(1) by blast
qed

section \<open>C10: the frame of a content update\<close>

text \<open>
  C10: when a message arrives whose key is in the store, whose node is \<open>n\<close>, and whose
  content is at least as long as the text of \<open>n\<close> and differs from it, the callback returns a
  state that differs from the old one in one child of the container only: at the position of
  \<open>n\<close> stands \<open>n\<close> with the new text, so the id, the class and the header (agent label and
  time) of the node, every other node, the store, the processed-id set, the remembered id and
  local storage are unchanged. Over a whole call that does not reset, a node that is on the
  page before and after the call differs at most in its text, which has not become shorter,
  and a changed text is the content of a snapshot message with the node's key.
\<close>

theorem content_update_frame:
  "(msgId msg \<in> set (store_keys s) \<and> getElementById (msgId msg) (children s) = Some n
      \<and> length (msg_content n) \<le> length (msg_text msg) \<and> msg_text msg \<noteq> msg_content n \<longrightarrow>
    (\<exists>i<length (children s). children s ! i = MsgDiv n
       \<and> render_msg s msg =
           Inr (SetContent (msgId msg) (msg_text msg) # scroll_ops s,
                s\<lparr>children := (children s)[i := MsgDiv (n\<lparr>msg_content := msg_text msg\<rparr>)]\<rparr>)))
   \<and> (consistent s' \<and> \<not> resets conversation s'
        \<and> updateCurrentConversation conversation s' = Inr (ops, s'')
        \<and> getElementById k (children s') = Some old \<and> getElementById k (children s'') = Some new \<longrightarrow>
      new = old\<lparr>msg_content := msg_content new\<rparr>
      \<and> length (msg_content old) \<le> length (msg_content new)
      \<and> (msg_content new \<noteq> msg_content old \<longrightarrow>
           (\<exists>m\<in>set (live_messages conversation). msgId m = k \<and> msg_text m = msg_content new)))"
proof (intro conjI impI)
  assume a: "msgId msg \<in> set (store_keys s) \<and> getElementById (msgId msg) (children s) = Some n
      \<and> length (msg_content n) \<le> length (msg_text msg) \<and> msg_text msg \<noteq> msg_content n"
  then obtain i where i: "i < length (children s)" "children s ! i = MsgDiv n"
    "set_content (msgId msg) (msg_text msg) (children s) =
       (children s)[i := MsgDiv (n\<lparr>msg_content := msg_text msg\<rparr>)]"
    using set_content_nth [of "msgId msg" "children s" n "msg_text msg"] by blast
  have "render_msg s msg =
          Inr (SetContent (msgId msg) (msg_text msg) # scroll_ops s,
               s\<lparr>children := set_content (msgId msg) (msg_text msg) (children s)\<rparr>)"
    using render_msg_seen [of msg s n] a by simp
  then show "\<exists>i<length (children s). children s ! i = MsgDiv n
       \<and> render_msg s msg =
           Inr (SetContent (msgId msg) (msg_text msg) # scroll_ops s,
                s\<lparr>children := (children s)[i := MsgDiv (n\<lparr>msg_content := msg_text msg\<rparr>)]\<rparr>)"
    using i by auto
next
  assume b: "consistent s' \<and> \<not> resets conversation s'
        \<and> updateCurrentConversation conversation s' = Inr (ops, s'')
        \<and> getElementById k (children s') = Some old \<and> getElementById k (children s'') = Some new"
  have "new = old\<lparr>msg_content := msg_content new\<rparr>
      \<and> length (msg_content old) \<le> length (msg_content new)
      \<and> (msg_content new \<noteq> msg_content old \<longrightarrow>
           (\<exists>m\<in>set (live_messages conversation). msgId m = k \<and> msg_text m = msg_content new))"
  proof (cases conversation rule: live_cases)
    case awaiting
    then have "s'' = awaiting s'" using b by (simp add: update_awaiting)
    then show ?thesis using b by (simp add: awaiting_def)
  next
    case (live c msgs)
    have st: "start_state c s' = s'"
      using start_state_no_reset [OF live(1)] live(3,4) b by simp
    have u: "updateCurrentConversation conversation s' = Inr (ops, s'')" using b by simp
    obtain ops1 s2 where
      r0: "render_all (start_state c s') msgs = Inr (ops1, s2)" and s'': "s'' = snd (cleanup msgs s2)"
      using update_liveD [OF live(1-3) u] by metis
    have r: "render_all s' msgs = Inr (ops1, s2)" using r0 st by simp
    have c2: "consistent s2" using render_all_consistent [OF _ r] b by simp
    obtain n2 where n2: "getElementById k (children s2) = Some n2"
      "n2 = old\<lparr>msg_content := msg_content n2\<rparr>" "length (msg_content old) \<le> length (msg_content n2)"
      "msg_content n2 \<noteq> msg_content old \<longrightarrow> (\<exists>m\<in>set msgs. msgId m = k \<and> msg_text m = msg_content n2)"
      using render_all_node [OF r, of k old] b by blast
    have "getElementById k (children s'') = (if k \<in> set (map msgId msgs) then Some n2 else None)"
      using cleanup_node [OF c2, of k msgs] n2(1) s'' by simp
    then have "new = n2" using b by (simp split: if_splits)
    then show ?thesis using n2 live(4) by simp
  qed
  then show "new = old\<lparr>msg_content := msg_content new\<rparr>"
    and "length (msg_content old) \<le> length (msg_content new)"
    and "msg_content new \<noteq> msg_content old \<Longrightarrow>
           \<exists>m\<in>set (live_messages conversation). msgId m = k \<and> msg_text m = msg_content new"
    by simp_all
qed

text \<open>
  The theorem at \<open>hello_state\<close>, for the message and the snapshot in which the text \<^verbatim>\<open>Hello\<close>
  has grown to \<^verbatim>\<open>Hello there\<close>.
\<close>

theorem content_update_frame_witness:
  "msgId (scenario_msg ''Hello there'') \<in> set (store_keys hello_state)
   \<and> getElementById (msgId (scenario_msg ''Hello there'')) (children hello_state) =
       Some (new_node (scenario_msg ''Hello''))
   \<and> length (msg_content (new_node (scenario_msg ''Hello''))) \<le> length (msg_text (scenario_msg ''Hello there''))
   \<and> msg_text (scenario_msg ''Hello there'') \<noteq> msg_content (new_node (scenario_msg ''Hello''))
   \<and> (\<exists>i<length (children hello_state).
         children hello_state ! i = MsgDiv (new_node (scenario_msg ''Hello''))
       \<and> render_msg hello_state (scenario_msg ''Hello there'') =
           Inr (SetContent ''OBSERVER-1000'' ''Hello there'' # scroll_ops hello_state,
                hello_state\<lparr>children := (children hello_state)
                  [i := MsgDiv ((new_node (scenario_msg ''Hello''))\<lparr>msg_content := ''Hello there''\<rparr>)]\<rparr>))
   \<and> consistent hello_state
   \<and> \<not> resets (both_snapshot ''Hello there'') hello_state
   \<and> updateCurrentConversation (both_snapshot ''Hello there'') hello_state =
       Inr ([SetContent ''OBSERVER-1000'' ''Hello there'', ScrollToBottom], grown_state)
   \<and> getElementById ''OBSERVER-1000'' (children grown_state) =
       Some ((new_node (scenario_msg ''Hello''))\<lparr>msg_content := ''Hello there''\<rparr>)
   \<and> length (msg_content (new_node (scenario_msg ''Hello'')))
       \<le> length (msg_content ((new_node (scenario_msg ''Hello''))\<lparr>msg_content := ''Hello there''\<rparr>))"
proof -
  let ?m = "scenario_msg ''Hello there''"
  let ?n = "new_node (scenario_msg ''Hello'')"
  have p: "msgId ?m \<in> set (store_keys hello_state)"
    "getElementById (msgId ?m) (children hello_state) = Some ?n"
    "length (msg_content ?n) \<le> length (msg_text ?m)"
    "msg_text ?m \<noteq> msg_content ?n"
    by (simp_all add: msgId_scenario lookup_hello_state msg_content_new_node msg_text_scenario)
      (simp add: hello_state_def store_keys_def)
  note f = content_update_frame [of ?m hello_state ?n hello_state "both_snapshot ''Hello there''"
      "[SetContent ''OBSERVER-1000'' ''Hello there'', ScrollToBottom]" grown_state
      "''OBSERVER-1000''" ?n "?n\<lparr>msg_content := ''Hello there''\<rparr>"]
  have a: "\<exists>i<length (children hello_state).
         children hello_state ! i = MsgDiv ?n
       \<and> render_msg hello_state ?m =
           Inr (SetContent ''OBSERVER-1000'' ''Hello there'' # scroll_ops hello_state,
                hello_state\<lparr>children := (children hello_state)
                  [i := MsgDiv (?n\<lparr>msg_content := ''Hello there''\<rparr>)]\<rparr>)"
    using f p by (simp add: msgId_scenario msg_text_scenario)
  have b: "length (msg_content ?n) \<le> length (msg_content (?n\<lparr>msg_content := ''Hello there''\<rparr>))"
    using f consistent_hello_state no_reset_both hello_grow lookup_hello_state lookup_grown_state
    by blast
  show ?thesis
    using p a b consistent_hello_state no_reset_both hello_grow lookup_grown_state by blast
qed

end
